theory Spec2Isabelle
  imports Main "HOL-Library.Word"
begin

section \<open>Python values used by the generator\<close>

type_synonym byte = "8 word"

datatype error = ValueError | IndexError | RecursionError

text \<open>\<^verbatim>\<open>range(n)\<close> for a non-negative literal bound.\<close>

definition range_py :: "nat \<Rightarrow> nat list" where
  "range_py n = [0..<n]"

text \<open>\<^verbatim>\<open>bytes(iterable_of_ints)\<close>: every element has to lie in \<^verbatim>\<open>range(256)\<close>,
  otherwise the constructor raises \<^verbatim>\<open>ValueError\<close>.\<close>

definition bytes_of :: "nat list \<Rightarrow> error + byte list" where
  "bytes_of xs = (if list_all (\<lambda>x. x < 256) xs then Inr (map word_of_nat xs) else Inl ValueError)"

text \<open>\<^verbatim>\<open>itertools.product(xs, repeat=n)\<close>: all tuples of length \<open>n\<close> over \<open>xs\<close>,
  the last position advancing fastest.\<close>

fun product_repeat :: "'a list \<Rightarrow> nat \<Rightarrow> 'a list list" where
  "product_repeat xs 0 = [[]]"
| "product_repeat xs (Suc n) = concat (map (\<lambda>x. map ((#) x) (product_repeat xs n)) xs)"

text \<open>\<^verbatim>\<open>struct.pack('<I', w)\<close>: the four bytes of an unsigned 32-bit value, least
  significant byte first.\<close>

definition pack_le_u32 :: "32 word \<Rightarrow> byte list" where
  "pack_le_u32 w = map (\<lambda>i. ucast (drop_bit (8 * i) w)) [0, 1, 2, 3]"

text \<open>\<^verbatim>\<open>buf[lo:hi] = bs\<close> on a bytearray, for non-negative bounds: both bounds are clamped
  to the length of the array, the slice is replaced by \<open>bs\<close>, and the array grows or
  shrinks when \<open>bs\<close> and the slice differ in length. No bound is ever rejected.\<close>

definition set_slice :: "byte list \<Rightarrow> nat \<Rightarrow> nat \<Rightarrow> byte list \<Rightarrow> byte list" where
  "set_slice buf lo hi bs =
     (let n = length buf; lo' = min lo n; hi' = max lo' (min hi n)
      in take lo' buf @ bs @ drop hi' buf)"

text \<open>\<^verbatim>\<open>buf[i] = v\<close> on a bytearray, for a non-negative index: the value must be in
  \<^verbatim>\<open>range(256)\<close> (\<^verbatim>\<open>ValueError\<close>) and the index inside the array (\<^verbatim>\<open>IndexError\<close>).\<close>

definition set_item :: "byte list \<Rightarrow> nat \<Rightarrow> int \<Rightarrow> error + byte list" where
  "set_item buf i v =
     (if v < 0 \<or> 255 < v then Inl ValueError
      else if length buf \<le> i then Inl IndexError
      else Inr (buf[i := word_of_int v]))"

section \<open>Initializer\<close>

definition sample_init :: "(nat \<times> nat) list" where
  "sample_init = List.product (range_py 256) (range_py 256)"

definition byte_array_init :: "byte list" where
  "byte_array_init = replicate 65540 0"

definition get_magic :: "byte list" where
  "get_magic = pack_le_u32 0xFEE1900D"

section \<open>Generator\<close>

record generator =
  tl_pairs :: "(nat \<times> nat) list"
  buffer :: "byte list"
  magic :: "byte list"

definition Generator_init :: generator where
  "Generator_init =
     \<lparr>tl_pairs = sample_init, buffer = byte_array_init, magic = get_magic\<rparr>"

text \<open>A run of a Python generator is recorded as the sequence of its observable steps:
  every write into the shared buffer and every value handed to the consumer, each with
  the contents of the buffer right after the step. A run ends normally or with the
  exception that escaped from it; the generator object it ran on is returned as it was
  left.\<close>

datatype event = Wrote nat "byte list" | Yielded "byte list"

type_synonym step = "event \<times> byte list"

type_synonym run = "step list \<times> generator \<times> error option"

definition steps :: "'e list \<times> 's \<times> error option \<Rightarrow> 'e list" where
  "steps r = fst r"

definition final :: "'e list \<times> 's \<times> error option \<Rightarrow> 's" where
  "final r = fst (snd r)"

definition outcome :: "'e list \<times> 's \<times> error option \<Rightarrow> error option" where
  "outcome r = snd (snd r)"

text \<open>The values handed to the consumer, in the order they are pulled.\<close>

fun yielded :: "step list \<Rightarrow> byte list list" where
  "yielded [] = []"
| "yielded ((Yielded f, b) # t) = f # yielded t"
| "yielded ((Wrote lo bs, b) # t) = yielded t"

definition emitted :: "run \<Rightarrow> byte list list" where
  "emitted r = yielded (steps r)"

text \<open>Sequencing: the second part runs on the state the first part left, unless the first
  part ended with an exception.\<close>

definition then_run ::
  "'e list \<times> 's \<times> error option \<Rightarrow> ('s \<Rightarrow> 'e list \<times> 's \<times> error option) \<Rightarrow>
   'e list \<times> 's \<times> error option" where
  "then_run r k =
     (case r of (t, g, e) \<Rightarrow>
        (case e of
           Some err \<Rightarrow> (t, g, Some err)
         | None \<Rightarrow> (case k g of (t', g', e') \<Rightarrow> (t @ t', g', e'))))"

definition write_slice :: "nat \<Rightarrow> nat \<Rightarrow> byte list \<Rightarrow> generator \<Rightarrow> run" where
  "write_slice lo hi bs g =
     (let b = set_slice (buffer g) lo hi bs
      in ([(Wrote lo bs, b)], g\<lparr>buffer := b\<rparr>, None))"

definition yield_bytes :: "byte list \<Rightarrow> generator \<Rightarrow> run" where
  "yield_bytes f g = ([(Yielded f, buffer g)], g, None)"

text \<open>\<^verbatim>\<open>Generator.dfs\<close>. The two \<^verbatim>\<open>for\<close> loops are the functions \<open>dfs_pairs\<close> (over the
  catalogue entries still to visit) and \<open>dfs_values\<close> (over the value tuples still to
  visit). When \<open>current_sec_idx\<close> is already beyond \<open>total_sections\<close> the source never
  reaches its base case: it writes a pair per level and recurses until the interpreter
  raises \<^verbatim>\<open>RecursionError\<close>, at a depth that depends on the interpreter. The model
  reports that outcome at once and does not record the writes made on the way down.
  \<^verbatim>\<open>generate_all\<close> starts at index 0 with a count of at least 0, and the index stops at
  the count, so it never takes this branch.\<close>

function dfs :: "int \<Rightarrow> int \<Rightarrow> nat \<Rightarrow> generator \<Rightarrow> run"
  and dfs_pairs :: "(nat \<times> nat) list \<Rightarrow> int \<Rightarrow> int \<Rightarrow> nat \<Rightarrow> generator \<Rightarrow> run"
  and dfs_values :: "nat list list \<Rightarrow> nat \<Rightarrow> int \<Rightarrow> int \<Rightarrow> nat \<Rightarrow> generator \<Rightarrow> run"
where
  "dfs current_sec_idx total_sections offset g =
     (if current_sec_idx = total_sections then yield_bytes (take offset (buffer g)) g
      else if total_sections < current_sec_idx then ([], g, Some RecursionError)
      else dfs_pairs (tl_pairs g) current_sec_idx total_sections offset g)"
| "dfs_pairs [] current_sec_idx total_sections offset g = ([], g, None)"
| "dfs_pairs (tlp # rest) current_sec_idx total_sections offset g =
     (case bytes_of [fst tlp, snd tlp] of
        Inl e \<Rightarrow> ([], g, Some e)
      | Inr b \<Rightarrow>
          then_run (write_slice offset (offset + 2) b g)
            (\<lambda>g1. then_run
               (if snd tlp = 0 then dfs (current_sec_idx + 1) total_sections (offset + 2) g1
                else dfs_values (product_repeat (range_py 256) (snd tlp)) (snd tlp)
                       current_sec_idx total_sections offset g1)
               (\<lambda>g2. dfs_pairs rest current_sec_idx total_sections offset g2)))"
| "dfs_values [] len current_sec_idx total_sections offset g = ([], g, None)"
| "dfs_values (v # vs) len current_sec_idx total_sections offset g =
     (case bytes_of v of
        Inl e \<Rightarrow> ([], g, Some e)
      | Inr b \<Rightarrow>
          then_run (write_slice (offset + 2) (offset + 2 + len) b g)
            (\<lambda>g1. then_run
               (dfs (current_sec_idx + 1) total_sections (offset + 2 + len) g1)
               (\<lambda>g2. dfs_values vs len current_sec_idx total_sections offset g2)))"
  by pat_completeness auto
termination
  by (relation "inv_image (less_than <*lex*> less_than <*lex*> less_than)
       (\<lambda>x. case x of
          Inl (i, t, _, _) \<Rightarrow> (nat (t - i + 1), if i < t then 3 else 0, 0)
        | Inr (Inl (ps, i, t, _, _)) \<Rightarrow> (nat (t - i + 1), 2, size ps)
        | Inr (Inr (vs, _, i, t, _, _)) \<Rightarrow> (nat (t - i + 1), 1, size vs))")
     auto

declare dfs.simps [simp del]

text \<open>\<^verbatim>\<open>Generator.generate_all\<close>: nothing runs before the first value is pulled; then
  the header is written and the traversal starts behind it.\<close>

definition generate_all :: "generator \<Rightarrow> int \<Rightarrow> run" where
  "generate_all g total_sections =
     then_run (write_slice 0 4 (magic g) g)
       (\<lambda>g1. case set_item (buffer g1) 4 total_sections of
                Inl e \<Rightarrow> ([], g1, Some e)
              | Inr b \<Rightarrow>
                  then_run ([(Wrote 4 [word_of_int total_sections], b)], g1\<lparr>buffer := b\<rparr>, None)
                    (\<lambda>g2. dfs 0 total_sections 5 g2))"

section \<open>Enumerations used to describe the traversal\<close>

text \<open>The encodings of one section, for the catalogue entries \<open>ps\<close> in their order and,
  under each entry, the value tuples in the order \<open>product_repeat\<close> lists them.\<close>

definition sections_of :: "(nat \<times> nat) list \<Rightarrow> byte list list" where
  "sections_of ps =
     concat (map (\<lambda>p. map (\<lambda>v. map word_of_nat (fst p # snd p # v))
                          (product_repeat (range_py 256) (snd p))) ps)"

text \<open>The byte strings made of \<open>n\<close> sections, the first section varying slowest.\<close>

fun bodies :: "(nat \<times> nat) list \<Rightarrow> nat \<Rightarrow> byte list list" where
  "bodies ps 0 = [[]]"
| "bodies ps (Suc n) = concat (map (\<lambda>s. map ((@) s) (bodies ps n)) (sections_of ps))"

definition valid_pairs :: "(nat \<times> nat) list \<Rightarrow> bool" where
  "valid_pairs ps = list_all (\<lambda>p. fst p < 256 \<and> snd p < 256) ps"

definition valid_values :: "nat \<Rightarrow> nat list list \<Rightarrow> bool" where
  "valid_values len vs = list_all (\<lambda>v. length v = len \<and> list_all (\<lambda>x. x < 256) v) vs"

text \<open>A run \<open>r\<close> started on \<open>g\<close> at offset \<open>off\<close> ends normally, leaves the
  catalogue, the magic and the first \<open>off\<close> bytes of the buffer as they were, and hands
  out exactly the strings \<open>bs\<close>, each behind those first \<open>off\<close> bytes.\<close>

definition produces :: "nat \<Rightarrow> generator \<Rightarrow> run \<Rightarrow> byte list list \<Rightarrow> bool" where
  "produces off g r bs \<longleftrightarrow>
     outcome r = None \<and> tl_pairs (final r) = tl_pairs g \<and> magic (final r) = magic g \<and>
     take off (buffer (final r)) = take off (buffer g) \<and>
     emitted r = map ((@) (take off (buffer g))) bs"

text \<open>The offset just behind the bytes a step wrote (0 for a step that wrote nothing).\<close>

fun write_end :: "event \<Rightarrow> nat" where
  "write_end (Wrote lo bs) = lo + length bs"
| "write_end (Yielded f) = 0"

text \<open>A run \<open>r\<close> started on \<open>g\<close> never writes behind offset \<open>hi\<close>, never changes the
  length of the buffer, and leaves the catalogue and the magic as they were.\<close>

definition within :: "nat \<Rightarrow> generator \<Rightarrow> run \<Rightarrow> bool" where
  "within hi g r \<longleftrightarrow>
     tl_pairs (final r) = tl_pairs g \<and> magic (final r) = magic g \<and>
     length (buffer (final r)) = length (buffer g) \<and>
     list_all (\<lambda>s. length (snd s) = length (buffer g) \<and> write_end (fst s) \<le> hi) (steps r)"

text \<open>The state of every \<^verbatim>\<open>Generator\<close> object that \<^verbatim>\<open>__init__\<close> built and that
  only \<^verbatim>\<open>generate_all\<close> has run on: the catalogue and the magic are the constructed
  ones and the buffer has its allocated size, with any contents.\<close>

definition gen_ok :: "generator \<Rightarrow> bool" where
  "gen_ok g \<longleftrightarrow>
     tl_pairs g = sample_init \<and> magic g = get_magic \<and> length (buffer g) = 65540"

text \<open>The five bytes \<^verbatim>\<open>generate_all\<close> puts in front of the sections.\<close>

definition header :: "int \<Rightarrow> byte list" where
  "header total_sections = get_magic @ [word_of_int total_sections]"

text \<open>The generator as \<^verbatim>\<open>generate_all\<close> leaves it when the header has been written and
  the traversal is about to start.\<close>

definition after_header :: "generator \<Rightarrow> int \<Rightarrow> generator" where
  "after_header g n = g\<lparr>buffer := (set_slice (buffer g) 0 4 (magic g))[4 := word_of_int n]\<rparr>"

section \<open>The file format\<close>

text \<open>A section is a tag byte, a length byte and the value bytes; it is well formed when
  the value has as many bytes as the length byte says.\<close>

type_synonym tlv = "byte \<times> byte \<times> byte list"

definition section_ok :: "tlv \<Rightarrow> bool" where
  "section_ok s = (case s of (tag, len, val) \<Rightarrow> length val = unat len)"

definition encode_section :: "tlv \<Rightarrow> byte list" where
  "encode_section s = (case s of (tag, len, val) \<Rightarrow> tag # len # val)"

definition section_size :: "tlv \<Rightarrow> nat" where
  "section_size s = (case s of (tag, len, val) \<Rightarrow> 2 + unat len)"

section \<open>The enumeration order in the words of the specification\<close>

text \<open>The catalogue in tag-major, length-minor order: the tag is the outer loop over
  0..255, the length the inner loop over 0..255.\<close>

definition catalog_order :: "(nat \<times> nat) list" where
  "catalog_order = concat (map (\<lambda>tag. map (\<lambda>len. (tag, len)) [0..<256]) [0..<256])"

text \<open>Odometer order: the \<open>k\<close>-th value of a given length is the number \<open>k\<close> written
  with that many base-256 digits, most significant digit first, so the last byte advances
  fastest.\<close>

fun counter_digits :: "nat \<Rightarrow> nat \<Rightarrow> nat list" where
  "counter_digits 0 k = []"
| "counter_digits (Suc n) k = k div 256 ^ n # counter_digits n (k mod 256 ^ n)"

definition odometer :: "nat \<Rightarrow> nat list list" where
  "odometer len = map (counter_digits len) [0..<256 ^ len]"

text \<open>All encodings of one section: catalogue order outside, odometer order inside.\<close>

definition section_choices :: "byte list list" where
  "section_choices =
     concat (map (\<lambda>p. map (\<lambda>val. map word_of_nat (fst p # snd p # val)) (odometer (snd p)))
               catalog_order)"

text \<open>Nested loops over \<open>n\<close> sections, section 0 being the outermost loop.\<close>

fun nested_loops :: "nat \<Rightarrow> byte list list" where
  "nested_loops 0 = [[]]"
| "nested_loops (Suc n) =
     concat (map (\<lambda>first. map (\<lambda>others. first @ others) (nested_loops n)) section_choices)"

definition cross_product_order :: "int \<Rightarrow> byte list list" where
  "cross_product_order n =
     map (\<lambda>body. [0x0D, 0x90, 0xE1, 0xFE, word_of_int n] @ body) (nested_loops (nat n))"

section \<open>Reusing a generator object\<close>

text \<open>The states in which a consumer can leave the generator object \<open>g\<close> while or after
  pulling from a run \<open>r\<close> on it: before the first pull, after any step of the run, and
  after the run has ended. Only the buffer is ever assigned.\<close>

definition stop_points :: "generator \<Rightarrow> run \<Rightarrow> generator list" where
  "stop_points g r = g # map (\<lambda>s. g\<lparr>buffer := snd s\<rparr>) (steps r) @ [final r]"

section \<open>The generator over an explicit store\<close>

text \<open>To speak about sharing, the byte objects live in a store: a list of objects, an
  address being an index into it. The bytearray \<^verbatim>\<open>self.buffer\<close> is one object, mutated in
  place by every slice and item assignment; \<^verbatim>\<open>bytes(self.buffer[:offset])\<close> allocates a new
  object and the generator yields the address of that object.\<close>

record store =
  heap :: "byte list list"
  self_buffer :: nat
  self_tl_pairs :: "(nat \<times> nat) list"
  self_magic :: "byte list"

definition Store_init :: store where
  "Store_init =
     \<lparr>heap = [byte_array_init], self_buffer = 0, self_tl_pairs = sample_init,
      self_magic = get_magic\<rparr>"

datatype store_event = Stored nat "byte list" | Handed_out nat

type_synonym store_step = "store_event \<times> byte list list"

type_synonym store_run = "store_step list \<times> store \<times> error option"

definition store_write_slice :: "nat \<Rightarrow> nat \<Rightarrow> byte list \<Rightarrow> store \<Rightarrow> store_run" where
  "store_write_slice lo hi bs s =
     (let h = (heap s)[self_buffer s := set_slice (heap s ! self_buffer s) lo hi bs]
      in ([(Stored lo bs, h)], s\<lparr>heap := h\<rparr>, None))"

definition store_yield_prefix :: "nat \<Rightarrow> store \<Rightarrow> store_run" where
  "store_yield_prefix offset s =
     (let h = heap s @ [take offset (heap s ! self_buffer s)]
      in ([(Handed_out (length (heap s)), h)], s\<lparr>heap := h\<rparr>, None))"

text \<open>\<^verbatim>\<open>Generator.dfs\<close> over the store, with the same three functions as \<open>dfs\<close>. As
  there, an index already beyond the count gives \<^verbatim>\<open>RecursionError\<close> at once, without
  the writes the source makes on the way down; \<^verbatim>\<open>generate_all\<close> never takes that
  branch.\<close>

function dfs_store :: "int \<Rightarrow> int \<Rightarrow> nat \<Rightarrow> store \<Rightarrow> store_run"
  and dfs_pairs_store :: "(nat \<times> nat) list \<Rightarrow> int \<Rightarrow> int \<Rightarrow> nat \<Rightarrow> store \<Rightarrow> store_run"
  and dfs_values_store :: "nat list list \<Rightarrow> nat \<Rightarrow> int \<Rightarrow> int \<Rightarrow> nat \<Rightarrow> store \<Rightarrow> store_run"
where
  "dfs_store current_sec_idx total_sections offset s =
     (if current_sec_idx = total_sections then store_yield_prefix offset s
      else if total_sections < current_sec_idx then ([], s, Some RecursionError)
      else dfs_pairs_store (self_tl_pairs s) current_sec_idx total_sections offset s)"
| "dfs_pairs_store [] current_sec_idx total_sections offset s = ([], s, None)"
| "dfs_pairs_store (tlp # rest) current_sec_idx total_sections offset s =
     (case bytes_of [fst tlp, snd tlp] of
        Inl e \<Rightarrow> ([], s, Some e)
      | Inr b \<Rightarrow>
          then_run (store_write_slice offset (offset + 2) b s)
            (\<lambda>s1. then_run
               (if snd tlp = 0 then dfs_store (current_sec_idx + 1) total_sections (offset + 2) s1
                else dfs_values_store (product_repeat (range_py 256) (snd tlp)) (snd tlp)
                       current_sec_idx total_sections offset s1)
               (\<lambda>s2. dfs_pairs_store rest current_sec_idx total_sections offset s2)))"
| "dfs_values_store [] len current_sec_idx total_sections offset s = ([], s, None)"
| "dfs_values_store (v # vs) len current_sec_idx total_sections offset s =
     (case bytes_of v of
        Inl e \<Rightarrow> ([], s, Some e)
      | Inr b \<Rightarrow>
          then_run (store_write_slice (offset + 2) (offset + 2 + len) b s)
            (\<lambda>s1. then_run
               (dfs_store (current_sec_idx + 1) total_sections (offset + 2 + len) s1)
               (\<lambda>s2. dfs_values_store vs len current_sec_idx total_sections offset s2)))"
  by pat_completeness auto
termination
  by (relation "inv_image (less_than <*lex*> less_than <*lex*> less_than)
       (\<lambda>x. case x of
          Inl (i, t, _, _) \<Rightarrow> (nat (t - i + 1), if i < t then 3 else 0, 0)
        | Inr (Inl (ps, i, t, _, _)) \<Rightarrow> (nat (t - i + 1), 2, size ps)
        | Inr (Inr (vs, _, i, t, _, _)) \<Rightarrow> (nat (t - i + 1), 1, size vs))")
     auto

declare dfs_store.simps [simp del]

definition generate_all_store :: "store \<Rightarrow> int \<Rightarrow> store_run" where
  "generate_all_store s total_sections =
     then_run (store_write_slice 0 4 (self_magic s) s)
       (\<lambda>s1. case set_item (heap s1 ! self_buffer s1) 4 total_sections of
                Inl e \<Rightarrow> ([], s1, Some e)
              | Inr b \<Rightarrow>
                  then_run ([(Stored 4 [word_of_int total_sections], (heap s1)[self_buffer s1 := b])],
                            s1\<lparr>heap := (heap s1)[self_buffer s1 := b]\<rparr>, None)
                    (\<lambda>s2. dfs_store 0 total_sections 5 s2))"

text \<open>The addresses handed to the consumer, in the order they are pulled.\<close>

fun handed_out :: "store_step list \<Rightarrow> nat list" where
  "handed_out [] = []"
| "handed_out ((Handed_out a, h) # t) = a # handed_out t"
| "handed_out ((Stored lo bs, h) # t) = handed_out t"

text \<open>Snapshot isolation of a run whose buffer lives at address \<open>b\<close>: an address handed
  out is not the address of the buffer, and the object at that address holds the same
  bytes after every later step as it did when it was handed out.\<close>

fun isolated :: "nat \<Rightarrow> store_step list \<Rightarrow> bool" where
  "isolated b [] = True"
| "isolated b ((Handed_out a, h) # t) =
     (a \<noteq> b \<and> a < length h \<and> list_all (\<lambda>s. snd s ! a = h ! a) t \<and> isolated b t)"
| "isolated b ((Stored lo bs, h) # t) = isolated b t"

text \<open>One store extends another when it keeps every object except the buffer.\<close>

definition extends :: "nat \<Rightarrow> byte list list \<Rightarrow> byte list list \<Rightarrow> bool" where
  "extends b h h' \<longleftrightarrow> length h \<le> length h' \<and> (\<forall>a < length h. a \<noteq> b \<longrightarrow> h' ! a = h ! a)"

text \<open>The stores after the steps of a run form a chain of extensions from \<open>h0\<close> to
  \<open>h1\<close>, and every address handed out was allocated by its own step.\<close>

fun chain :: "nat \<Rightarrow> byte list list \<Rightarrow> store_step list \<Rightarrow> byte list list \<Rightarrow> bool" where
  "chain b h0 [] h1 = extends b h0 h1"
| "chain b h0 ((Handed_out a, h) # t) h1 =
     (extends b h0 h \<and> length h0 \<le> a \<and> a < length h \<and> chain b h t h1)"
| "chain b h0 ((Stored lo bs, h) # t) h1 = (extends b h0 h \<and> chain b h t h1)"

text \<open>Reading a run over the store as a run over byte values: the buffer is the object at
  its address, and an address handed out stands for the bytes of its object.\<close>

definition abs_store :: "store \<Rightarrow> generator" where
  "abs_store s =
     \<lparr>tl_pairs = self_tl_pairs s, buffer = heap s ! self_buffer s, magic = self_magic s\<rparr>"

fun abs_step :: "nat \<Rightarrow> store_step \<Rightarrow> step" where
  "abs_step b (Stored lo bs, h) = (Wrote lo bs, h ! b)"
| "abs_step b (Handed_out a, h) = (Yielded (h ! a), h ! b)"

definition abs_run :: "nat \<Rightarrow> store_run \<Rightarrow> run" where
  "abs_run b r = (map (abs_step b) (steps r), abs_store (final r), outcome r)"

text \<open>A run over the store keeps the address of the buffer, and its steps form a chain of
  extensions.\<close>

definition linked :: "store \<Rightarrow> store_run \<Rightarrow> bool" where
  "linked s r \<longleftrightarrow>
     self_buffer (final r) = self_buffer s \<and>
     chain (self_buffer s) (heap s) (steps r) (heap (final r))"

text \<open>A run over the store, read as a run over byte values, is the run \<open>r'\<close>; the buffer
  stays allocated at its address.\<close>

definition refines :: "store \<Rightarrow> store_run \<Rightarrow> run \<Rightarrow> bool" where
  "refines s r r' \<longleftrightarrow>
     abs_run (self_buffer s) r = r' \<and> self_buffer (final r) = self_buffer s \<and>
     self_buffer s < length (heap (final r))"

section \<open>Basic facts about runs\<close>

lemma yielded_append: "yielded (xs @ ys) = yielded xs @ yielded ys"
  by (induction xs rule: yielded.induct) auto

lemma steps_then_run:
  "steps (then_run r k) = (if outcome r = None then steps r @ steps (k (final r)) else steps r)"
  by (auto simp: then_run_def steps_def final_def outcome_def split: prod.splits option.splits)

lemma final_then_run:
  "final (then_run r k) = (if outcome r = None then final (k (final r)) else final r)"
  by (auto simp: then_run_def steps_def final_def outcome_def split: prod.splits option.splits)

lemma outcome_then_run:
  "outcome (then_run r k) = (if outcome r = None then outcome (k (final r)) else outcome r)"
  by (auto simp: then_run_def steps_def final_def outcome_def split: prod.splits option.splits)

lemma emitted_then_run:
  "emitted (then_run r k) = (if outcome r = None then emitted r @ emitted (k (final r)) else emitted r)"
  by (simp add: emitted_def steps_then_run yielded_append)

lemma run_simps [simp]:
  "steps (t, g, e) = t" "final (t, g, e) = g" "outcome (t, g, e) = e"
  by (simp_all add: steps_def final_def outcome_def)

lemma write_slice_simps:
  "steps (write_slice lo hi bs g) = [(Wrote lo bs, set_slice (buffer g) lo hi bs)]"
  "final (write_slice lo hi bs g) = g\<lparr>buffer := set_slice (buffer g) lo hi bs\<rparr>"
  "outcome (write_slice lo hi bs g) = None"
  "emitted (write_slice lo hi bs g) = []"
  by (simp_all add: write_slice_def Let_def emitted_def)

lemma produces_then:
  assumes "produces off g r bs" and "produces off (final r) (k (final r)) cs"
  shows "produces off g (then_run r k) (bs @ cs)"
  using assms
  by (simp add: produces_def outcome_then_run final_then_run emitted_then_run)

lemma produces_nil: "produces off g ([], g, None) []"
  by (simp add: produces_def emitted_def)

lemma take_set_slice_lo:
  "lo \<le> length buf \<Longrightarrow> k \<le> lo \<Longrightarrow> take k (set_slice buf lo hi bs) = take k buf"
  by (simp add: set_slice_def Let_def min_def)

lemma take_set_slice_hi:
  "lo \<le> length buf \<Longrightarrow> take (lo + length bs) (set_slice buf lo hi bs) = take lo buf @ bs"
  by (simp add: set_slice_def Let_def min_def)

lemma length_set_slice_ge:
  "lo \<le> length buf \<Longrightarrow> lo + length bs \<le> length (set_slice buf lo hi bs)"
  by (simp add: set_slice_def Let_def)

lemma produces_write:
  "lo \<le> length (buffer g) \<Longrightarrow> off \<le> lo \<Longrightarrow> produces off g (write_slice lo hi bs g) []"
  by (simp add: produces_def write_slice_simps take_set_slice_lo)

lemma produces_weaken:
  assumes "produces (off + k) g r bs" and "take (off + k) (buffer g) = take off (buffer g) @ p"
  shows "produces off g r (map ((@) p) bs)"
proof -
  from assms(1) have a: "take (off + k) (buffer (final r)) = take (off + k) (buffer g)"
    by (simp add: produces_def)
  have "take off (take (off + k) (buffer (final r))) = take off (take (off + k) (buffer g))"
    using a by simp
  then have "take off (buffer (final r)) = take off (buffer g)"
    by (simp add: min_def)
  with assms show ?thesis by (simp add: produces_def o_def)
qed

lemma bytes_of_Inr: "bytes_of xs = Inr b \<Longrightarrow> b = map word_of_nat xs \<and> list_all (\<lambda>x. x < 256) xs"
  by (auto simp: bytes_of_def split: if_splits)

lemma bytes_of_valid: "list_all (\<lambda>x. x < 256) xs \<Longrightarrow> bytes_of xs = Inr (map word_of_nat xs)"
  by (simp add: bytes_of_def)

lemma sections_of_Nil: "sections_of [] = []"
  by (simp add: sections_of_def)

lemma sections_of_Cons:
  "sections_of (p # ps) =
     map (\<lambda>v. map word_of_nat (fst p # snd p # v)) (product_repeat (range_py 256) (snd p)) @ sections_of ps"
  by (simp add: sections_of_def)

lemma produces_length:
  "produces off g r bs \<Longrightarrow> off \<le> length (buffer g) \<Longrightarrow> off \<le> length (buffer (final r))"
proof -
  assume a: "produces off g r bs" and b: "off \<le> length (buffer g)"
  then have "length (take off (buffer (final r))) = length (take off (buffer g))"
    by (simp add: produces_def)
  with b show ?thesis by (simp add: min_def split: if_splits)
qed

lemma produces_seq:
  assumes "produces off g r bs" and "off \<le> length (buffer g)"
    and "\<And>g'. tl_pairs g' = tl_pairs g \<Longrightarrow> off \<le> length (buffer g') \<Longrightarrow> produces off g' (k g') cs"
  shows "produces off g (then_run r k) (bs @ cs)"
proof (rule produces_then [OF assms(1)])
  show "produces off (final r) (k (final r)) cs"
    using assms(1) produces_length [OF assms(1,2)] by (intro assms(3)) (simp_all add: produces_def)
qed

lemma product_repeat_all:
  "list_all P xs \<Longrightarrow> list_all (\<lambda>v. length v = n \<and> list_all P v) (product_repeat xs n)"
  by (induction n) (auto simp: list_all_iff)

lemma valid_values_product_repeat: "valid_values n (product_repeat (range_py 256) n)"
  unfolding valid_values_def
  by (rule product_repeat_all) (simp add: list_all_iff range_py_def)

lemma dfs_produces:
  "current_sec_idx \<le> total_sections \<Longrightarrow> valid_pairs (tl_pairs g) \<Longrightarrow> offset \<le> length (buffer g) \<Longrightarrow>
     produces offset g (dfs current_sec_idx total_sections offset g)
       (bodies (tl_pairs g) (nat (total_sections - current_sec_idx)))"
  and dfs_pairs_produces:
  "current_sec_idx < total_sections \<Longrightarrow> valid_pairs (tl_pairs g) \<Longrightarrow> valid_pairs ps \<Longrightarrow>
     offset \<le> length (buffer g) \<Longrightarrow>
     produces offset g (dfs_pairs ps current_sec_idx total_sections offset g)
       (concat (map (\<lambda>s. map ((@) s) (bodies (tl_pairs g) (nat (total_sections - current_sec_idx - 1))))
          (sections_of ps)))"
  and dfs_values_produces:
  "current_sec_idx < total_sections \<Longrightarrow> valid_pairs (tl_pairs g) \<Longrightarrow> valid_values len vs \<Longrightarrow>
     offset + 2 \<le> length (buffer g) \<Longrightarrow>
     produces (offset + 2) g (dfs_values vs len current_sec_idx total_sections offset g)
       (concat (map (\<lambda>v. map ((@) (map word_of_nat v)) (bodies (tl_pairs g) (nat (total_sections - current_sec_idx - 1))))
          vs))"
proof (induction current_sec_idx total_sections offset g and ps current_sec_idx total_sections offset g
       and vs len current_sec_idx total_sections offset g rule: dfs_dfs_pairs_dfs_values.induct)
  case (1 current_sec_idx total_sections offset g)
  show ?case
  proof (cases "current_sec_idx = total_sections")
    case True
    then show ?thesis
      by (simp add: dfs.simps produces_def yield_bytes_def emitted_def)
  next
    case False
    with "1.prems" have lt: "current_sec_idx < total_sections" by simp
    then have n: "nat (total_sections - current_sec_idx) = Suc (nat (total_sections - current_sec_idx - 1))"
      by simp
    from lt "1.IH" "1.prems" show ?thesis
      by (simp add: dfs.simps n del: dfs_pairs.simps)
  qed
next
  case (2 current_sec_idx total_sections offset g)
  show ?case by (simp add: sections_of_Nil produces_nil)
next
  case (3 tlp rest current_sec_idx total_sections offset g)
  let ?b = "map word_of_nat [fst tlp, snd tlp] :: byte list"
  let ?g1 = "g\<lparr>buffer := set_slice (buffer g) offset (offset + 2) ?b\<rparr>"
  let ?B = "bodies (tl_pairs g) (nat (total_sections - current_sec_idx - 1))"
  let ?PR = "product_repeat (range_py 256) (snd tlp)"
  let ?S = "map (\<lambda>v. map word_of_nat (fst tlp # snd tlp # v) :: byte list) ?PR"
  let ?mid = "\<lambda>g1. if snd tlp = 0 then dfs (current_sec_idx + 1) total_sections (offset + 2) g1
                else dfs_values ?PR (snd tlp) current_sec_idx total_sections offset g1"
  from "3.prems" have p: "fst tlp < 256" "snd tlp < 256" and ps: "valid_pairs rest"
    by (simp_all add: valid_pairs_def)
  have bv: "bytes_of [fst tlp, snd tlp] = Inr ?b" using p by (simp add: bytes_of_valid)
  have w: "produces offset g (write_slice offset (offset + 2) ?b g) []"
    using "3.prems" by (simp add: produces_write)
  have fw: "final (write_slice offset (offset + 2) ?b g) = ?g1"
    by (simp add: write_slice_simps)
  have len1: "offset + 2 \<le> length (buffer ?g1)"
    using length_set_slice_ge [of offset "buffer g" ?b] "3.prems" by simp
  have tk: "take (offset + 2) (buffer ?g1) = take offset (buffer ?g1) @ ?b"
    using take_set_slice_hi [of offset "buffer g" ?b] "3.prems"
    by (simp add: take_set_slice_lo)
  have mid: "produces offset ?g1 (?mid ?g1) (concat (map (\<lambda>s. map ((@) s) ?B) ?S))"
  proof (cases "snd tlp = 0")
    case True
    have "produces (offset + 2) ?g1 (dfs (current_sec_idx + 1) total_sections (offset + 2) ?g1) ?B"
      using "3.IH"(1) [OF bv True, of ?g1] "3.prems" len1 by (simp add: algebra_simps)
    from produces_weaken [OF this tk] True show ?thesis by simp
  next
    case False
    have "produces (offset + 2) ?g1
            (dfs_values ?PR (snd tlp) current_sec_idx total_sections offset ?g1)
            (concat (map (\<lambda>v. map ((@) (map word_of_nat v)) ?B) ?PR))"
      using "3.IH"(2) [OF bv False, of ?g1] "3.prems" len1 valid_values_product_repeat by simp
    from produces_weaken [OF this tk]
    have "produces offset ?g1 (?mid ?g1)
            (map ((@) ?b) (concat (map (\<lambda>v. map ((@) (map word_of_nat v)) ?B) ?PR)))"
      using False by simp
    moreover have "map ((@) ?b) (concat (map (\<lambda>v. map ((@) (map word_of_nat v)) ?B) ?PR))
                 = concat (map (\<lambda>s. map ((@) s) ?B) ?S)"
      unfolding map_concat map_map o_def
      by (rule arg_cong [where f = concat]) simp
    ultimately show ?thesis by simp
  qed
  have rest: "produces offset g' (dfs_pairs rest current_sec_idx total_sections offset g')
             (concat (map (\<lambda>s. map ((@) s) ?B) (sections_of rest)))"
    if "tl_pairs g' = tl_pairs g" "offset \<le> length (buffer g')" for g'
    using "3.IH"(3) [OF bv, of g'] "3.prems" ps that by simp
  have len1': "offset \<le> length (buffer ?g1)" using len1 by simp
  have inner: "produces offset g'
      (then_run (?mid g') (\<lambda>g2. dfs_pairs rest current_sec_idx total_sections offset g2))
      (concat (map (\<lambda>s. map ((@) s) ?B) ?S) @ concat (map (\<lambda>s. map ((@) s) ?B) (sections_of rest)))"
    if "g' = ?g1" for g'
    unfolding that
    by (rule produces_seq [OF mid len1']) (use rest in simp_all)
  have "produces offset g
      (then_run (write_slice offset (offset + 2) ?b g)
        (\<lambda>g1. then_run (?mid g1) (\<lambda>g2. dfs_pairs rest current_sec_idx total_sections offset g2)))
      ([] @ (concat (map (\<lambda>s. map ((@) s) ?B) ?S) @ concat (map (\<lambda>s. map ((@) s) ?B) (sections_of rest))))"
    by (rule produces_then [OF w]) (simp only: fw inner)
  then show ?case
    by (simp add: bv sections_of_Cons)
next
  case (4 len current_sec_idx total_sections offset g)
  show ?case by (simp add: produces_nil)
next
  case (5 v vs len current_sec_idx total_sections offset g)
  let ?b = "map word_of_nat v :: byte list"
  let ?g1 = "g\<lparr>buffer := set_slice (buffer g) (offset + 2) (offset + 2 + len) ?b\<rparr>"
  let ?B = "bodies (tl_pairs g) (nat (total_sections - current_sec_idx - 1))"
  from "5.prems" have v: "length v = len" "list_all (\<lambda>x. x < 256) v" and vs: "valid_values len vs"
    by (simp_all add: valid_values_def)
  have bv: "bytes_of v = Inr ?b" using v by (simp add: bytes_of_valid)
  have lb: "length ?b = len" using v by simp
  have w: "produces (offset + 2) g (write_slice (offset + 2) (offset + 2 + len) ?b g) []"
    using "5.prems" by (simp add: produces_write)
  have fw: "final (write_slice (offset + 2) (offset + 2 + len) ?b g) = ?g1"
    by (simp add: write_slice_simps)
  have len1: "offset + 2 + len \<le> length (buffer ?g1)"
    using length_set_slice_ge [of "offset + 2" "buffer g" ?b] "5.prems" lb by simp
  have d: "produces (offset + 2 + len) ?g1
             (dfs (current_sec_idx + 1) total_sections (offset + 2 + len) ?g1) ?B"
    using "5.IH"(1) [OF bv, of ?g1] "5.prems" len1
    by (simp add: algebra_simps)
  have tk: "take (offset + 2 + len) (buffer ?g1) = take (offset + 2) (buffer ?g1) @ ?b"
    using take_set_slice_hi [of "offset + 2" "buffer g" ?b] "5.prems" lb
    by (simp add: take_set_slice_lo)
  have d': "produces (offset + 2) ?g1
             (dfs (current_sec_idx + 1) total_sections (offset + 2 + len) ?g1) (map ((@) ?b) ?B)"
    by (rule produces_weaken [OF d tk])
  have rest: "produces (offset + 2) g' (dfs_values vs len current_sec_idx total_sections offset g')
             (concat (map (\<lambda>v. map ((@) (map word_of_nat v)) ?B) vs))"
    if "tl_pairs g' = tl_pairs g" "offset + 2 \<le> length (buffer g')" for g'
    using "5.IH"(2) [OF bv, of g'] "5.prems" vs that by simp
  have inner: "produces (offset + 2) g'
      (then_run (dfs (current_sec_idx + 1) total_sections (offset + 2 + len) g')
         (\<lambda>g2. dfs_values vs len current_sec_idx total_sections offset g2))
      (map ((@) ?b) ?B @ concat (map (\<lambda>v. map ((@) (map word_of_nat v)) ?B) vs))"
    if "g' = ?g1" for g'
    unfolding that
    by (rule produces_seq [OF d']) (use len1 rest in simp_all)
  have "produces (offset + 2) g
      (then_run (write_slice (offset + 2) (offset + 2 + len) ?b g)
        (\<lambda>g1. then_run (dfs (current_sec_idx + 1) total_sections (offset + 2 + len) g1)
           (\<lambda>g2. dfs_values vs len current_sec_idx total_sections offset g2)))
      ([] @ (map ((@) ?b) ?B @ concat (map (\<lambda>v. map ((@) (map word_of_nat v)) ?B) vs)))"
    by (rule produces_then [OF w]) (simp only: fw inner)
  then show ?case
    by (simp add: bv)
qed

section \<open>Where a traversal writes\<close>

lemma within_then:
  assumes "within hi g r" and "within hi (final r) (k (final r))"
  shows "within hi g (then_run r k)"
  using assms
  by (simp add: within_def outcome_then_run final_then_run steps_then_run)

lemma within_seq:
  assumes "within hi g r"
    and "\<And>g'. tl_pairs g' = tl_pairs g \<Longrightarrow> length (buffer g') = length (buffer g) \<Longrightarrow> within hi g' (k g')"
  shows "within hi g (then_run r k)"
  by (rule within_then [OF assms(1)]) (use assms(1) in \<open>intro assms(2); simp add: within_def\<close>)

lemma within_mono: "within hi g r \<Longrightarrow> hi \<le> hi' \<Longrightarrow> within hi' g r"
  by (auto simp: within_def list_all_iff)

lemma within_nil: "within hi g ([], g, None)"
  by (simp add: within_def)

lemma length_set_slice_same:
  "lo + length bs \<le> length buf \<Longrightarrow> length (set_slice buf lo (lo + length bs) bs) = length buf"
  by (simp add: set_slice_def Let_def)

lemma within_write:
  "lo + length bs \<le> hi \<Longrightarrow> hi \<le> length (buffer g) \<Longrightarrow>
     within hi g (write_slice lo (lo + length bs) bs g)"
  by (simp add: within_def write_slice_simps length_set_slice_same)

lemma dfs_within:
  "current_sec_idx \<le> total_sections \<Longrightarrow> valid_pairs (tl_pairs g) \<Longrightarrow>
     offset + 257 * nat (total_sections - current_sec_idx) \<le> length (buffer g) \<Longrightarrow>
     within (offset + 257 * nat (total_sections - current_sec_idx)) g
       (dfs current_sec_idx total_sections offset g)"
  and dfs_pairs_within:
  "current_sec_idx < total_sections \<Longrightarrow> valid_pairs (tl_pairs g) \<Longrightarrow> valid_pairs ps \<Longrightarrow>
     offset + 257 * nat (total_sections - current_sec_idx) \<le> length (buffer g) \<Longrightarrow>
     within (offset + 257 * nat (total_sections - current_sec_idx)) g
       (dfs_pairs ps current_sec_idx total_sections offset g)"
  and dfs_values_within:
  "current_sec_idx < total_sections \<Longrightarrow> valid_pairs (tl_pairs g) \<Longrightarrow> valid_values len vs \<Longrightarrow>
     len < 256 \<Longrightarrow>
     offset + 257 * nat (total_sections - current_sec_idx) \<le> length (buffer g) \<Longrightarrow>
     within (offset + 257 * nat (total_sections - current_sec_idx)) g
       (dfs_values vs len current_sec_idx total_sections offset g)"
proof (induction current_sec_idx total_sections offset g and ps current_sec_idx total_sections offset g
       and vs len current_sec_idx total_sections offset g rule: dfs_dfs_pairs_dfs_values.induct)
  case (1 current_sec_idx total_sections offset g)
  show ?case
  proof (cases "current_sec_idx = total_sections")
    case True
    then show ?thesis
      by (simp add: dfs.simps within_def yield_bytes_def)
  next
    case False
    with "1.prems" have lt: "current_sec_idx < total_sections" by simp
    from lt "1.IH" "1.prems" show ?thesis
      by (simp add: dfs.simps del: dfs_pairs.simps)
  qed
next
  case (2 current_sec_idx total_sections offset g)
  show ?case by (simp add: within_nil)
next
  case (3 tlp rest current_sec_idx total_sections offset g)
  let ?b = "map word_of_nat [fst tlp, snd tlp] :: byte list"
  let ?g1 = "g\<lparr>buffer := set_slice (buffer g) offset (offset + 2) ?b\<rparr>"
  let ?n = "nat (total_sections - current_sec_idx - 1)"
  let ?hi = "offset + 257 * nat (total_sections - current_sec_idx)"
  let ?PR = "product_repeat (range_py 256) (snd tlp)"
  let ?mid = "\<lambda>g1. if snd tlp = 0 then dfs (current_sec_idx + 1) total_sections (offset + 2) g1
                else dfs_values ?PR (snd tlp) current_sec_idx total_sections offset g1"
  from "3.prems" have p: "fst tlp < 256" "snd tlp < 256" and ps: "valid_pairs rest"
    by (simp_all add: valid_pairs_def)
  from "3.prems" have n: "nat (total_sections - current_sec_idx) = Suc ?n" by simp
  have hi: "?hi \<le> length (buffer g)" using "3.prems" by simp
  have bv: "bytes_of [fst tlp, snd tlp] = Inr ?b" using p by (simp add: bytes_of_valid)
  have w: "within ?hi g (write_slice offset (offset + 2) ?b g)"
    using within_write [of offset ?b ?hi g] hi n by simp
  have fw: "final (write_slice offset (offset + 2) ?b g) = ?g1"
    by (simp add: write_slice_simps)
  have g1: "tl_pairs ?g1 = tl_pairs g" "length (buffer ?g1) = length (buffer g)"
    using length_set_slice_same [of offset ?b "buffer g"] hi n by simp_all
  have mid: "within ?hi ?g1 (?mid ?g1)"
  proof (cases "snd tlp = 0")
    case True
    have "within (offset + 2 + 257 * nat (total_sections - (current_sec_idx + 1))) ?g1
            (dfs (current_sec_idx + 1) total_sections (offset + 2) ?g1)"
      using "3.IH"(1) [OF bv True, of ?g1] "3.prems" g1 hi n
      by (simp add: algebra_simps)
    then show ?thesis using True n
      by (auto elim!: within_mono simp: algebra_simps)
  next
    case False
    have "within ?hi ?g1 (dfs_values ?PR (snd tlp) current_sec_idx total_sections offset ?g1)"
      using "3.IH"(2) [OF bv False, of ?g1] "3.prems" g1 p valid_values_product_repeat by simp
    then show ?thesis using False by simp
  qed
  have rest: "within ?hi g' (dfs_pairs rest current_sec_idx total_sections offset g')"
    if "tl_pairs g' = tl_pairs g" "length (buffer g') = length (buffer g)" for g'
    using "3.IH"(3) [OF bv, of g'] "3.prems" ps that by simp
  have inner: "within ?hi g'
      (then_run (?mid g') (\<lambda>g2. dfs_pairs rest current_sec_idx total_sections offset g2))"
    if "g' = ?g1" for g'
    unfolding that
    by (rule within_seq [OF mid]) (use rest g1 in simp_all)
  have "within ?hi g
      (then_run (write_slice offset (offset + 2) ?b g)
        (\<lambda>g1. then_run (?mid g1) (\<lambda>g2. dfs_pairs rest current_sec_idx total_sections offset g2)))"
    by (rule within_then [OF w]) (simp only: fw inner)
  then show ?case
    by (simp add: bv)
next
  case (4 len current_sec_idx total_sections offset g)
  show ?case by (simp add: within_nil)
next
  case (5 v vs len current_sec_idx total_sections offset g)
  let ?b = "map word_of_nat v :: byte list"
  let ?g1 = "g\<lparr>buffer := set_slice (buffer g) (offset + 2) (offset + 2 + len) ?b\<rparr>"
  let ?n = "nat (total_sections - current_sec_idx - 1)"
  let ?hi = "offset + 257 * nat (total_sections - current_sec_idx)"
  from "5.prems" have v: "length v = len" "list_all (\<lambda>x. x < 256) v" and vs: "valid_values len vs"
    by (simp_all add: valid_values_def)
  from "5.prems" have n: "nat (total_sections - current_sec_idx) = Suc ?n" by simp
  have hi: "?hi \<le> length (buffer g)" using "5.prems" by simp
  have bv: "bytes_of v = Inr ?b" using v by (simp add: bytes_of_valid)
  have lb: "length ?b = len" using v by simp
  have w: "within ?hi g (write_slice (offset + 2) (offset + 2 + len) ?b g)"
    using within_write [of "offset + 2" ?b ?hi g] hi n lb "5.prems" by simp
  have fw: "final (write_slice (offset + 2) (offset + 2 + len) ?b g) = ?g1"
    by (simp add: write_slice_simps)
  have g1: "tl_pairs ?g1 = tl_pairs g" "length (buffer ?g1) = length (buffer g)"
    using length_set_slice_same [of "offset + 2" ?b "buffer g"] hi n lb "5.prems" by simp_all
  have "within (offset + 2 + len + 257 * nat (total_sections - (current_sec_idx + 1))) ?g1
          (dfs (current_sec_idx + 1) total_sections (offset + 2 + len) ?g1)"
    using "5.IH"(1) [OF bv, of ?g1] "5.prems" g1 hi n
    by (simp add: algebra_simps)
  then have d: "within ?hi ?g1 (dfs (current_sec_idx + 1) total_sections (offset + 2 + len) ?g1)"
    using n "5.prems" by (auto elim!: within_mono simp: algebra_simps)
  have rest: "within ?hi g' (dfs_values vs len current_sec_idx total_sections offset g')"
    if "tl_pairs g' = tl_pairs g" "length (buffer g') = length (buffer g)" for g'
    using "5.IH"(2) [OF bv, of g'] "5.prems" vs that by simp
  have inner: "within ?hi g'
      (then_run (dfs (current_sec_idx + 1) total_sections (offset + 2 + len) g')
         (\<lambda>g2. dfs_values vs len current_sec_idx total_sections offset g2))"
    if "g' = ?g1" for g'
    unfolding that
    by (rule within_seq [OF d]) (use rest g1 in simp_all)
  have "within ?hi g
      (then_run (write_slice (offset + 2) (offset + 2 + len) ?b g)
        (\<lambda>g1. then_run (dfs (current_sec_idx + 1) total_sections (offset + 2 + len) g1)
           (\<lambda>g2. dfs_values vs len current_sec_idx total_sections offset g2)))"
    by (rule within_then [OF w]) (simp only: fw inner)
  then show ?case
    by (simp add: bv)
qed


section \<open>The header and the start of a traversal\<close>

lemma get_magic_bytes: "get_magic = [0x0D, 0x90, 0xE1, 0xFE]"
  by (simp add: get_magic_def pack_le_u32_def)

lemma length_get_magic: "length get_magic = 4"
  by (simp add: get_magic_def pack_le_u32_def)

lemma valid_pairs_sample_init: "valid_pairs sample_init"
  by (auto simp: valid_pairs_def sample_init_def range_py_def list_all_iff)

lemma set_slice_magic:
  "gen_ok g \<Longrightarrow> set_slice (buffer g) 0 4 (magic g) = get_magic @ drop 4 (buffer g)"
  by (simp add: gen_ok_def set_slice_def Let_def)

lemma after_header_buffer:
  "gen_ok g \<Longrightarrow> buffer (after_header g n) = get_magic @ word_of_int n # drop 5 (buffer g)"
proof -
  assume g: "gen_ok g"
  then have "buffer g ! 4 # drop (Suc 4) (buffer g) = drop 4 (buffer g)"
    by (intro Cons_nth_drop_Suc) (simp add: gen_ok_def)
  then have "drop 4 (buffer g) = buffer g ! 4 # drop 5 (buffer g)"
    by simp
  with g show ?thesis
    by (simp add: after_header_def set_slice_magic list_update_append length_get_magic)
qed

lemma gen_ok_after_header: "gen_ok g \<Longrightarrow> gen_ok (after_header g n)"
  by (simp add: gen_ok_def after_header_buffer length_get_magic) (simp add: after_header_def)

lemma generate_all_unfold:
  assumes "gen_ok g" "0 \<le> n" "n \<le> 255"
  shows "generate_all g n =
     then_run (write_slice 0 4 (magic g) g)
       (\<lambda>g1. then_run ([(Wrote 4 [word_of_int n], buffer (after_header g n))], after_header g n, None)
                (\<lambda>g2. dfs 0 n 5 g2))"
proof -
  have "length (set_slice (buffer g) 0 4 (magic g)) = 65540"
    using assms(1) by (simp add: set_slice_magic length_get_magic) (simp add: gen_ok_def)
  then show ?thesis
    using assms(2,3)
    by (simp add: generate_all_def then_run_def write_slice_def Let_def set_item_def after_header_def)
qed

lemma generate_all_run:
  assumes "gen_ok g" "0 \<le> n" "n \<le> 255"
  shows "steps (generate_all g n) =
           (Wrote 0 get_magic, get_magic @ drop 4 (buffer g)) #
           (Wrote 4 [word_of_int n], buffer (after_header g n)) #
           steps (dfs 0 n 5 (after_header g n))"
    and "final (generate_all g n) = final (dfs 0 n 5 (after_header g n))"
    and "outcome (generate_all g n) = outcome (dfs 0 n 5 (after_header g n))"
  using assms(1)
  by (simp_all add: generate_all_unfold [OF assms] steps_then_run final_then_run outcome_then_run
        write_slice_simps set_slice_magic) (simp_all add: gen_ok_def)

lemma dfs_after_header:
  assumes "gen_ok g" "0 \<le> n" "n \<le> 255"
  shows "produces 5 (after_header g n) (dfs 0 n 5 (after_header g n)) (bodies sample_init (nat n))"
proof -
  have ok: "gen_ok (after_header g n)" by (rule gen_ok_after_header [OF assms(1)])
  then have "valid_pairs (tl_pairs (after_header g n))" "5 \<le> length (buffer (after_header g n))"
    by (simp_all add: gen_ok_def valid_pairs_sample_init)
  from dfs_produces [OF assms(2) this] ok show ?thesis
    by (simp add: gen_ok_def)
qed

lemma generate_all_emitted:
  assumes "gen_ok g" "0 \<le> n" "n \<le> 255"
  shows "emitted (generate_all g n) = map ((@) (header n)) (bodies sample_init (nat n))"
    and "outcome (generate_all g n) = None"
  using dfs_after_header [OF assms] assms(1)
  by (simp_all add: generate_all_run [OF assms] emitted_def produces_def after_header_buffer
        length_get_magic header_def)

section \<open>Properties of \<^verbatim>\<open>generate_all\<close>\<close>

lemma gen_ok_Generator_init: "gen_ok Generator_init"
  by (simp add: gen_ok_def Generator_init_def byte_array_init_def)

lemma header_bytes: "header n = [0x0D, 0x90, 0xE1, 0xFE, word_of_int n]"
  by (simp add: header_def get_magic_bytes)

lemma generate_all_within:
  assumes "gen_ok g" "0 \<le> n" "n \<le> 255"
  shows "within (5 + 257 * nat n) (after_header g n) (dfs 0 n 5 (after_header g n))"
proof -
  have ok: "gen_ok (after_header g n)" by (rule gen_ok_after_header [OF assms(1)])
  have "5 + 257 * nat n \<le> 65540" using assms by simp
  with ok have "valid_pairs (tl_pairs (after_header g n))"
    "5 + 257 * nat (n - 0) \<le> length (buffer (after_header g n))"
    by (simp_all add: gen_ok_def valid_pairs_sample_init)
  from dfs_within [of 0 n "after_header g n" 5] this assms(2) show ?thesis by simp
qed

lemma generate_all_invalid:
  assumes "gen_ok g" "n < 0 \<or> 255 < n"
  shows "generate_all g n =
           ([(Wrote 0 get_magic, get_magic @ drop 4 (buffer g))],
            g\<lparr>buffer := get_magic @ drop 4 (buffer g)\<rparr>, Some ValueError)"
  using assms
  by (auto simp: generate_all_def then_run_def write_slice_def Let_def set_item_def set_slice_magic)
     (simp_all add: gen_ok_def)

text \<open>Claim C5. For a section count \<open>n\<close> in 0..255, every file that
  \<^verbatim>\<open>generate_all(n)\<close> emits starts with the bytes 0D 90 E1 FE (the magic 0xFEE1900D, least
  significant byte first) followed by the byte \<open>n\<close>.\<close>
theorem header_correct:
  assumes "gen_ok g" "0 \<le> n" "n \<le> 255" "f \<in> set (emitted (generate_all g n))"
  shows "take 5 f = [0x0D, 0x90, 0xE1, 0xFE, word_of_int n]"
  using assms(4) by (auto simp: generate_all_emitted [OF assms(1-3)] header_bytes)

theorem header_correct_witness:
  "gen_ok Generator_init \<and> (0::int) \<le> 0 \<and> (0::int) \<le> 255 \<and>
   [0x0D, 0x90, 0xE1, 0xFE, 0] \<in> set (emitted (generate_all Generator_init 0)) \<and>
   take 5 [0x0D, 0x90, 0xE1, 0xFE, 0 :: byte] = [0x0D, 0x90, 0xE1, 0xFE, word_of_int 0]"
  using header_correct [of Generator_init 0 "[0x0D, 0x90, 0xE1, 0xFE, 0]"]
  by (simp add: gen_ok_Generator_init generate_all_emitted header_bytes)

text \<open>Claim C7. \<^verbatim>\<open>generate_all(0)\<close> emits exactly one file, the five header bytes with
  nothing behind them. The run consists of the two header writes and the emission: no
  tag/length pair is visited or written.\<close>
theorem zero_sections:
  assumes "gen_ok g"
  shows "emitted (generate_all g 0) = [[0x0D, 0x90, 0xE1, 0xFE, 0]] \<and>
         map fst (steps (generate_all g 0)) =
           [Wrote 0 [0x0D, 0x90, 0xE1, 0xFE], Wrote 4 [0], Yielded [0x0D, 0x90, 0xE1, 0xFE, 0]] \<and>
         outcome (generate_all g 0) = None"
  using assms
  by (simp add: generate_all_emitted generate_all_run header_bytes dfs.simps yield_bytes_def
      after_header_buffer length_get_magic) (simp add: get_magic_bytes)

theorem zero_sections_witness:
  "emitted (generate_all Generator_init 0) = [[0x0D, 0x90, 0xE1, 0xFE, 0]] \<and>
   map fst (steps (generate_all Generator_init 0)) =
     [Wrote 0 [0x0D, 0x90, 0xE1, 0xFE], Wrote 4 [0], Yielded [0x0D, 0x90, 0xE1, 0xFE, 0]] \<and>
   outcome (generate_all Generator_init 0) = None"
  using zero_sections [of Generator_init] by (simp add: gen_ok_Generator_init)

text \<open>Claim C9. For a section count below 0 or above 255 the first pull raises
  \<^verbatim>\<open>ValueError\<close> at the write of the section-count byte: the magic has been written, nothing
  else has happened, and no file is emitted.\<close>
theorem out_of_range_count:
  assumes "gen_ok g" "n < 0 \<or> 255 < n"
  shows "outcome (generate_all g n) = Some ValueError \<and>
         emitted (generate_all g n) = [] \<and>
         map fst (steps (generate_all g n)) = [Wrote 0 [0x0D, 0x90, 0xE1, 0xFE]]"
  by (simp add: generate_all_invalid [OF assms] emitted_def get_magic_bytes)

theorem out_of_range_count_witness:
  "outcome (generate_all Generator_init 256) = Some ValueError \<and>
   emitted (generate_all Generator_init 256) = [] \<and>
   outcome (generate_all Generator_init (- 1)) = Some ValueError \<and>
   emitted (generate_all Generator_init (- 1)) = []"
  using out_of_range_count [of Generator_init 256] out_of_range_count [of Generator_init "- 1"]
  by (simp add: gen_ok_Generator_init)

text \<open>Claim C8. In a traversal for a section count \<open>n\<close> in 0..255 no write ends behind
  offset \<open>5 + n * (2 + 255)\<close>, which is at most the capacity 65540 and equal to it exactly
  for \<open>n = 255\<close>; after every step and at the end the buffer still has 65540 bytes.\<close>
theorem buffer_bounds:
  assumes "gen_ok g" "0 \<le> n" "n \<le> 255"
  shows "list_all (\<lambda>s. write_end (fst s) \<le> 5 + nat n * (2 + 255) \<and> length (snd s) = 65540)
           (steps (generate_all g n)) \<and>
         length (buffer (final (generate_all g n))) = 65540 \<and>
         5 + nat n * (2 + 255) \<le> 65540 \<and>
         (5 + nat n * (2 + 255) = 65540 \<longleftrightarrow> n = 255)"
proof -
  have ok: "gen_ok (after_header g n)" by (rule gen_ok_after_header [OF assms(1)])
  have len: "length (buffer (after_header g n)) = 65540" "length (buffer g) = 65540"
    using ok assms(1) by (simp_all add: gen_ok_def)
  from generate_all_within [OF assms]
  have "list_all (\<lambda>s. length (snd s) = 65540 \<and> write_end (fst s) \<le> 5 + 257 * nat n)
          (steps (dfs 0 n 5 (after_header g n)))"
    and "length (buffer (final (dfs 0 n 5 (after_header g n)))) = 65540"
    by (simp_all add: within_def len)
  then show ?thesis
    using assms(2,3) len
    by (auto simp: generate_all_run [OF assms] length_get_magic list_all_iff mult.commute)
qed

theorem buffer_bounds_witness:
  "list_all (\<lambda>s. write_end (fst s) \<le> 5 + nat 255 * (2 + 255) \<and> length (snd s) = 65540)
     (steps (generate_all Generator_init 255)) \<and>
   length (buffer (final (generate_all Generator_init 255))) = 65540"
  using buffer_bounds [of Generator_init 255] by (simp add: gen_ok_Generator_init)

lemma gen_ok_buffer: "gen_ok g \<Longrightarrow> length b = 65540 \<Longrightarrow> gen_ok (g\<lparr>buffer := b\<rparr>)"
  by (simp add: gen_ok_def)

lemma stop_points_ok:
  assumes "gen_ok g0" "g \<in> set (stop_points g0 (generate_all g0 n'))"
  shows "gen_ok g"
proof (cases "0 \<le> n' \<and> n' \<le> 255")
  case True
  then have n: "0 \<le> n'" "n' \<le> 255" by simp_all
  let ?d = "dfs 0 n' 5 (after_header g0 n')"
  have ok: "gen_ok (after_header g0 n')" by (rule gen_ok_after_header [OF assms(1)])
  have w: "within (5 + 257 * nat n') (after_header g0 n') ?d"
    by (rule generate_all_within [OF assms(1) n])
  have fin: "gen_ok (final ?d)"
    using w ok by (simp add: within_def gen_ok_def)
  have st: "length (snd s) = 65540" if "s \<in> set (steps ?d)" for s
    using w ok that by (simp add: within_def gen_ok_def list_all_iff)
  have l0: "length (buffer g0) = 65540" using assms(1) by (simp add: gen_ok_def)
  have l1: "length (buffer (after_header g0 n')) = 65540" using ok by (simp add: gen_ok_def)
  from assms(2) consider "g = g0" | "g = g0\<lparr>buffer := get_magic @ drop 4 (buffer g0)\<rparr>"
    | "g = g0\<lparr>buffer := buffer (after_header g0 n')\<rparr>"
    | s where "s \<in> set (steps ?d)" "g = g0\<lparr>buffer := snd s\<rparr>"
    | "g = final ?d"
    by (auto simp: stop_points_def generate_all_run [OF assms(1) n])
  then show ?thesis
  proof cases
    case 1 with assms(1) show ?thesis by simp
  next
    case 2 then show ?thesis using l0 by (simp add: gen_ok_buffer [OF assms(1)] length_get_magic)
  next
    case 3 then show ?thesis using l1 by (simp add: gen_ok_buffer [OF assms(1)])
  next
    case 4 then show ?thesis using st by (simp add: gen_ok_buffer [OF assms(1)])
  next
    case 5 with fin show ?thesis by simp
  qed
next
  case False
  then have "n' < 0 \<or> 255 < n'" by auto
  note inv = generate_all_invalid [OF assms(1) this]
  have l0: "length (buffer g0) = 65540" using assms(1) by (simp add: gen_ok_def)
  from assms(2) have "g = g0 \<or> g = g0\<lparr>buffer := get_magic @ drop 4 (buffer g0)\<rparr>"
    by (auto simp: stop_points_def inv)
  then show ?thesis
    using assms(1) l0 by (auto simp: gen_ok_buffer length_get_magic)
qed

lemma emitted_any_buffer:
  assumes "gen_ok g" "gen_ok g'"
  shows "emitted (generate_all g n) = emitted (generate_all g' n)"
proof (cases "0 \<le> n \<and> n \<le> 255")
  case True
  then show ?thesis using assms by (simp add: generate_all_emitted)
next
  case False
  then have "n < 0 \<or> 255 < n" by auto
  then show ?thesis using assms by (simp add: generate_all_invalid emitted_def)
qed

text \<open>Claim C10. Take a generator object in any state \<open>g0\<close> it can be in, run
  \<^verbatim>\<open>generate_all(n')\<close> on it and stop anywhere: before the first pull, after any step,
  or at the end of the run (normal or by exception). A later \<^verbatim>\<open>generate_all(n)\<close> on that
  object emits exactly the files that a freshly constructed generator emits: what the
  earlier traversal left in the buffer never shows in a file.\<close>
theorem reuse_same_files:
  assumes "gen_ok g0" "g \<in> set (stop_points g0 (generate_all g0 n'))"
  shows "emitted (generate_all g n) = emitted (generate_all Generator_init n)"
  by (rule emitted_any_buffer [OF stop_points_ok [OF assms] gen_ok_Generator_init])

theorem reuse_same_files_witness:
  "emitted (generate_all (final (generate_all Generator_init 1)) 2) =
   emitted (generate_all Generator_init 2)"
  using reuse_same_files [of Generator_init "final (generate_all Generator_init 1)" 1 2]
  by (simp add: gen_ok_Generator_init stop_points_def)

lemma outcome_any_buffer:
  assumes "gen_ok g" "gen_ok g'"
  shows "outcome (generate_all g n) = outcome (generate_all g' n)"
proof (cases "0 \<le> n \<and> n \<le> 255")
  case True
  then show ?thesis using assms by (simp add: generate_all_emitted)
next
  case False
  then have "n < 0 \<or> 255 < n" by auto
  then show ?thesis using assms by (simp add: generate_all_invalid)
qed

text \<open>Claim C4. Two independent runs of \<^verbatim>\<open>generate_all(n)\<close>, each on a generator object of
  its own, hand out the same first \<open>k\<close> files, byte for byte, and end in the same way.
  This holds for any two objects in a constructed state, whatever their buffers hold at
  the start, so in particular for two freshly constructed ones; it holds for every
  \<open>k\<close> and every \<open>n\<close>, the counts 0..255 included.\<close>

theorem deterministic_runs:
  assumes "gen_ok g1" "gen_ok g2"
  shows "take k (emitted (generate_all g1 n)) = take k (emitted (generate_all g2 n)) \<and>
         outcome (generate_all g1 n) = outcome (generate_all g2 n)"
  using emitted_any_buffer [OF assms, of n] outcome_any_buffer [OF assms, of n] by simp

theorem deterministic_runs_witness:
  "gen_ok Generator_init \<and> gen_ok (Generator_init\<lparr>buffer := replicate 65540 0xFF\<rparr>) \<and>
   take 3 (emitted (generate_all Generator_init 2)) =
     take 3 (emitted (generate_all (Generator_init\<lparr>buffer := replicate 65540 0xFF\<rparr>) 2)) \<and>
   outcome (generate_all Generator_init 2) =
     outcome (generate_all (Generator_init\<lparr>buffer := replicate 65540 0xFF\<rparr>) 2)"
proof -
  have a: "gen_ok Generator_init" by (rule gen_ok_Generator_init)
  have b: "gen_ok (Generator_init\<lparr>buffer := replicate 65540 0xFF\<rparr>)"
    by (rule gen_ok_buffer [OF a]) simp
  from deterministic_runs [OF a b, of 3 2] a b show ?thesis by simp
qed

section \<open>Writes behind the end of the buffer\<close>

lemma sample_init_Cons:
  "\<exists>rest. sample_init = (0, 0) # (0, Suc 0) # rest"
proof -
  have u: "[0..<256::nat] = 0 # [Suc 0..<256]" by (rule upt_conv_Cons) simp
  have u2: "[Suc 0..<256::nat] = Suc 0 # [Suc (Suc 0)..<256]" by (rule upt_conv_Cons) simp
  have "sample_init = List.product (0 # Suc 0 # [Suc (Suc 0)..<256]) (0 # Suc 0 # [Suc (Suc 0)..<256])"
    by (simp only: sample_init_def range_py_def u u2)
  then show ?thesis
    by (simp only: product.simps list.map append.simps) blast
qed

lemma steps_write_then:
  "steps (then_run (write_slice lo hi bs g) k) =
     (Wrote lo bs, set_slice (buffer g) lo hi bs) #
     steps (k (g\<lparr>buffer := set_slice (buffer g) lo hi bs\<rparr>))"
  by (simp add: steps_then_run write_slice_simps)

lemma dfs_first_step:
  assumes "tl_pairs g = sample_init" "current_sec_idx < total_sections"
  shows "\<exists>rest. steps (dfs current_sec_idx total_sections offset g) =
           (Wrote offset [0, 0], set_slice (buffer g) offset (offset + 2) [0, 0]) # rest"
proof -
  from sample_init_Cons obtain ps where ps: "sample_init = (0, 0) # ps" by blast
  have "dfs current_sec_idx total_sections offset g =
          dfs_pairs ((0, 0) # ps) current_sec_idx total_sections offset g"
    using assms by (simp add: dfs.simps [of current_sec_idx total_sections offset g] ps)
  then show ?thesis
    by (simp add: bytes_of_def steps_write_then)
qed

lemma length_set_slice_beyond:
  "length buf < lo + length bs \<Longrightarrow>
     length (set_slice buf lo (lo + length bs) bs) = min lo (length buf) + length bs"
  by (auto simp: set_slice_def Let_def min_def max_def)

text \<open>Claim C2, as the code has it. The code has no capacity check. When \<^verbatim>\<open>dfs\<close> writes a
  tag/length pair whose end lies behind the 65540 bytes of the buffer, the write is
  carried out and the buffer grows; nothing is raised at that write. In a traversal
  started by \<^verbatim>\<open>generate_all(n)\<close> with \<open>n\<close> in 0..255 no such write exists: every write ends
  at or below offset 65540 and the run ends without an exception.\<close>
theorem no_capacity_guard:
  assumes "gen_ok g"
  shows "(current_sec_idx < total_sections \<longrightarrow> 65540 < offset + 2 \<longrightarrow>
            (\<exists>b rest. steps (dfs current_sec_idx total_sections offset g) =
                        (Wrote offset [0, 0], b) # rest \<and> 65540 < length b)) \<and>
         (0 \<le> n \<longrightarrow> n \<le> 255 \<longrightarrow>
            outcome (generate_all g n) = None \<and>
            list_all (\<lambda>s. write_end (fst s) \<le> 65540) (steps (generate_all g n)))"
proof (intro conjI impI)
  assume a: "current_sec_idx < total_sections" "65540 < offset + 2"
  from assms have g: "tl_pairs g = sample_init" "length (buffer g) = 65540"
    by (simp_all add: gen_ok_def)
  from dfs_first_step [OF g(1) a(1), of offset] obtain rest where
    r: "steps (dfs current_sec_idx total_sections offset g) =
          (Wrote offset [0, 0], set_slice (buffer g) offset (offset + 2) [0, 0]) # rest"
    by blast
  have "length (set_slice (buffer g) offset (offset + length [0, 0 :: byte]) [0, 0]) =
          min offset (length (buffer g)) + length [0, 0 :: byte]"
    by (rule length_set_slice_beyond) (use a g in simp)
  then have "65540 < length (set_slice (buffer g) offset (offset + 2) [0, 0])"
    using a g by (simp add: min_def split: if_splits)
  with r show "\<exists>b rest. steps (dfs current_sec_idx total_sections offset g) =
                  (Wrote offset [0, 0], b) # rest \<and> 65540 < length b"
    by blast
next
  assume n: "0 \<le> n" "n \<le> 255"
  show "outcome (generate_all g n) = None"
    by (rule generate_all_emitted(2) [OF assms n])
next
  assume n: "0 \<le> n" "n \<le> 255"
  have ok: "gen_ok (after_header g n)" by (rule gen_ok_after_header [OF assms])
  from generate_all_within [OF assms n]
  have "list_all (\<lambda>s. write_end (fst s) \<le> 5 + 257 * nat n) (steps (dfs 0 n 5 (after_header g n)))"
    by (simp add: within_def list_all_iff)
  moreover have "5 + 257 * nat n \<le> 65540" using n by simp
  ultimately have "list_all (\<lambda>s. write_end (fst s) \<le> 65540) (steps (dfs 0 n 5 (after_header g n)))"
    by (auto simp: list_all_iff)
  then show "list_all (\<lambda>s. write_end (fst s) \<le> 65540) (steps (generate_all g n))"
    by (simp add: generate_all_run [OF assms n] length_get_magic)
qed

theorem no_capacity_guard_witness:
  "(\<exists>b rest. steps (dfs 0 1 65539 Generator_init) = (Wrote 65539 [0, 0], b) # rest \<and>
      65540 < length b) \<and>
   outcome (generate_all Generator_init 255) = None \<and>
   list_all (\<lambda>s. write_end (fst s) \<le> 65540) (steps (generate_all Generator_init 255))"
  using no_capacity_guard [of Generator_init 0 1 65539 255]
  by (simp add: gen_ok_Generator_init)

lemma bodies_sample_init_first: "\<exists>bs. bodies sample_init (Suc 0) = [0, 0] # bs"
proof -
  from sample_init_Cons obtain ps where ps: "sample_init = (0, 0) # ps" by blast
  show ?thesis
    by (simp add: ps sections_of_Cons)
qed

text \<open>Claim C2 as stated fails: \<^verbatim>\<open>dfs(0, 1, 65539)\<close> on a fresh generator first writes the
  pair (0, 0) at offset 65539, which makes the buffer 65541 bytes long, runs on without an
  exception, and its first file has 65541 bytes.\<close>

theorem overrun_counterexample:
  "outcome (dfs 0 1 65539 Generator_init) = None \<and>
   fst (hd (steps (dfs 0 1 65539 Generator_init))) = Wrote 65539 [0, 0] \<and>
   length (snd (hd (steps (dfs 0 1 65539 Generator_init)))) = 65541 \<and>
   length (hd (emitted (dfs 0 1 65539 Generator_init))) = 65541"
proof -
  let ?g = Generator_init
  have g: "tl_pairs ?g = sample_init" "buffer ?g = replicate 65540 0"
    by (simp_all add: Generator_init_def byte_array_init_def)
  have p: "produces 65539 ?g (dfs 0 1 65539 ?g) (bodies (tl_pairs ?g) (nat (1 - 0)))"
    by (rule dfs_produces) (simp_all add: g valid_pairs_sample_init)
  from dfs_first_step [OF g(1), of 0 1 65539] obtain rest where
    r: "steps (dfs 0 1 65539 ?g) =
          (Wrote 65539 [0, 0], set_slice (buffer ?g) 65539 (65539 + 2) [0, 0]) # rest"
    by auto
  from bodies_sample_init_first obtain bs where b: "bodies sample_init (nat 1) = [0, 0] # bs"
    by auto
  from p have e: "emitted (dfs 0 1 65539 ?g) = map ((@) (take 65539 (buffer ?g))) (bodies sample_init (nat 1))"
    by (simp add: produces_def g)
  have "length (hd (emitted (dfs 0 1 65539 ?g))) = 65541"
    unfolding e b by (simp add: g)
  moreover have "outcome (dfs 0 1 65539 ?g) = None"
    using p by (simp add: produces_def)
  moreover have "length (set_slice (buffer ?g) 65539 (65539 + 2) [0, 0]) = 65541"
    by (simp add: g set_slice_def Let_def)
  ultimately show ?thesis
    by (simp add: r)
qed

section \<open>The layout of an emitted file\<close>

lemma sections_of_structure:
  assumes "valid_pairs ps" "s \<in> set (sections_of ps)"
  shows "\<exists>sec. section_ok sec \<and> s = encode_section sec"
proof -
  from assms(2) obtain p v where pv: "p \<in> set ps" "v \<in> set (product_repeat (range_py 256) (snd p))"
    "s = map word_of_nat (fst p # snd p # v)"
    by (auto simp: sections_of_def)
  from assms(1) pv(1) have l: "snd p < 256" by (auto simp: valid_pairs_def list_all_iff)
  from valid_values_product_repeat [of "snd p"] pv(2) have lv: "length v = snd p"
    by (auto simp: valid_values_def list_all_iff)
  have "unat (word_of_nat (snd p) :: byte) = snd p"
    using l by (simp add: unat_of_nat)
  then have "section_ok (word_of_nat (fst p), word_of_nat (snd p), map word_of_nat v)"
    using lv by (simp add: section_ok_def)
  moreover have "s = encode_section (word_of_nat (fst p), word_of_nat (snd p), map word_of_nat v)"
    using pv(3) by (simp add: encode_section_def)
  ultimately show ?thesis by blast
qed

lemma bodies_structure:
  assumes "valid_pairs ps"
  shows "b \<in> set (bodies ps n) \<Longrightarrow>
     \<exists>secs. length secs = n \<and> list_all section_ok secs \<and> b = concat (map encode_section secs)"
proof (induction n arbitrary: b)
  case 0
  then show ?case by simp
next
  case (Suc n)
  then obtain s b' where sb: "s \<in> set (sections_of ps)" "b' \<in> set (bodies ps n)" "b = s @ b'"
    by auto
  from sections_of_structure [OF assms sb(1)] obtain sec where
    sec: "section_ok sec" "s = encode_section sec" by blast
  from Suc.IH [OF sb(2)] obtain secs where
    secs: "length secs = n" "list_all section_ok secs" "b' = concat (map encode_section secs)"
    by blast
  have "length (sec # secs) = Suc n \<and> list_all section_ok (sec # secs) \<and>
        b = concat (map encode_section (sec # secs))"
    using sec secs sb(3) by simp
  then show ?case by blast
qed

lemma length_encoded_sections:
  "list_all section_ok secs \<Longrightarrow>
     length (concat (map encode_section secs)) = sum_list (map section_size secs)"
  by (induction secs) (auto simp: section_ok_def encode_section_def section_size_def)

text \<open>Claim C6. For a section count \<open>n\<close> in 0..255, every emitted file is the five header
  bytes followed by exactly \<open>n\<close> sections, each a tag byte, a length byte and as many
  value bytes as the length byte says; so the file has \<open>5 + \<Sum>(2 + length\<^sub>i)\<close> bytes.\<close>
theorem file_layout:
  assumes "gen_ok g" "0 \<le> n" "n \<le> 255" "f \<in> set (emitted (generate_all g n))"
  shows "\<exists>secs. length secs = nat n \<and> list_all section_ok secs \<and>
           f = header n @ concat (map encode_section secs) \<and>
           length f = 5 + sum_list (map section_size secs)"
proof -
  from assms(4) obtain b where b: "b \<in> set (bodies sample_init (nat n))" "f = header n @ b"
    by (auto simp: generate_all_emitted [OF assms(1-3)])
  from bodies_structure [OF valid_pairs_sample_init b(1)] obtain secs where
    secs: "length secs = nat n" "list_all section_ok secs" "b = concat (map encode_section secs)"
    by blast
  have "length f = 5 + sum_list (map section_size secs)"
    using b(2) secs(3) length_encoded_sections [OF secs(2)] by (simp add: header_bytes)
  with secs b(2) show ?thesis by blast
qed

lemma bodies_sample_init_first3:
  "\<exists>bs. bodies sample_init (Suc 0) = [0, 0] # [0, 1, 0] # [0, 1, 1] # bs"
proof -
  from sample_init_Cons obtain ps where ps: "sample_init = (0, 0) # (0, Suc 0) # ps" by blast
  have u: "[0..<256::nat] = 0 # [Suc 0..<256]" by (rule upt_conv_Cons) simp
  have u2: "[Suc 0..<256::nat] = Suc 0 # [Suc (Suc 0)..<256]" by (rule upt_conv_Cons) simp
  have r: "range_py 256 = 0 # Suc 0 # [Suc (Suc 0)..<256]"
    by (simp only: range_py_def u u2)
  show ?thesis
    by (simp add: ps sections_of_Cons r)
qed

theorem file_layout_witness:
  "[0x0D, 0x90, 0xE1, 0xFE, 1, 0, 1, 1] \<in> set (emitted (generate_all Generator_init 1)) \<and>
   (\<exists>secs. length secs = nat 1 \<and> list_all section_ok secs \<and>
      [0x0D, 0x90, 0xE1, 0xFE, 1, 0, 1, 1] = header 1 @ concat (map encode_section secs) \<and>
      length [0x0D, 0x90, 0xE1, 0xFE, 1, 0, 1, 1 :: byte] = 5 + sum_list (map section_size secs))"
proof -
  from bodies_sample_init_first3 obtain bs where
    "bodies sample_init (Suc 0) = [0, 0] # [0, 1, 0] # [0, 1, 1] # bs" by blast
  then have m: "[0x0D, 0x90, 0xE1, 0xFE, 1, 0, 1, 1] \<in> set (emitted (generate_all Generator_init 1))"
    by (simp add: generate_all_emitted gen_ok_Generator_init header_bytes)
  from file_layout [OF gen_ok_Generator_init _ _ m] m show ?thesis by simp
qed

section \<open>The order of the emitted files\<close>

lemma sample_init_catalog: "sample_init = catalog_order"
  unfolding sample_init_def catalog_order_def range_py_def
  by (rule product_concat_map)

lemma upt_blocks:
  "[0..<b * m] = concat (map (\<lambda>x. map (\<lambda>j. x * m + j) [0..<m]) [0..<b])"
proof (induction b)
  case 0
  then show ?case by simp
next
  case (Suc b)
  let ?f = "\<lambda>x. map (\<lambda>j. x * m + j) [0..<m]"
  have "map (\<lambda>j. j + b * m) [0..<m] = [b * m..<m + b * m]"
    by (rule map_add_upt)
  then have blk: "[b * m..<b * m + m] = ?f b"
    by (simp only: add.commute)
  have "[0..<Suc b * m] = [0..<b * m + m]"
    by (simp add: add.commute)
  also have "\<dots> = [0..<b * m] @ [b * m..<b * m + m]"
    by (rule upt_add_eq_append) simp
  also have "\<dots> = concat (map ?f [0..<b]) @ ?f b"
    by (simp only: Suc.IH blk)
  also have "\<dots> = concat (map ?f [0..<Suc b])"
    by simp
  finally show ?case .
qed

lemma counter_digits_block:
  "j < 256 ^ n \<Longrightarrow> counter_digits (Suc n) (x * 256 ^ n + j) = x # counter_digits n j"
  by simp

lemma product_repeat_odometer: "product_repeat (range_py 256) n = odometer n"
proof (induction n)
  case 0
  then show ?case by (simp add: odometer_def)
next
  case (Suc n)
  let ?m = "256 ^ n :: nat"
  have "odometer (Suc n) = map (counter_digits (Suc n)) [0..<256 * ?m]"
    by (simp add: odometer_def)
  also have "\<dots> = concat (map (\<lambda>x. map (\<lambda>j. counter_digits (Suc n) (x * ?m + j)) [0..<?m]) [0..<256])"
    unfolding upt_blocks [of 256 ?m] by (simp only: map_concat map_map o_def)
  also have "\<dots> = concat (map (\<lambda>x. map (\<lambda>j. x # counter_digits n j) [0..<?m]) [0..<256])"
    by (rule arg_cong [where f = concat]) (simp del: counter_digits.simps add: counter_digits_block)
  also have "\<dots> = concat (map (\<lambda>x. map ((#) x) (odometer n)) [0..<256])"
    by (simp only: odometer_def map_map o_def)
  finally have "odometer (Suc n) = concat (map (\<lambda>x. map ((#) x) (odometer n)) (range_py 256))"
    by (simp only: range_py_def)
  then show ?case
    by (simp only: product_repeat.simps Suc.IH)
qed

lemma sections_of_sample_init: "sections_of sample_init = section_choices"
  by (simp only: sections_of_def section_choices_def sample_init_catalog product_repeat_odometer)

lemma bodies_nested_loops: "bodies sample_init n = nested_loops n"
  by (induction n) (simp_all add: sections_of_sample_init)

text \<open>Claim C1. For a section count \<open>n\<close> in 0..255 the files come out in the
  lexicographic cross-product order: section 0 is the outermost loop, the (tag, length)
  pairs advance tag-major and length-minor, and under one pair the value bytes advance in
  odometer order. For one section the first three files are the header followed by
  (tag 0, length 0), by (tag 0, length 1, value 0) and by (tag 0, length 1, value 1).\<close>
theorem enumeration_order:
  assumes "gen_ok g" "0 \<le> n" "n \<le> 255"
  shows "emitted (generate_all g n) = cross_product_order n \<and>
         take 3 (emitted (generate_all g 1)) =
           [[0x0D, 0x90, 0xE1, 0xFE, 1, 0, 0],
            [0x0D, 0x90, 0xE1, 0xFE, 1, 0, 1, 0],
            [0x0D, 0x90, 0xE1, 0xFE, 1, 0, 1, 1]]"
proof
  show "emitted (generate_all g n) = cross_product_order n"
    by (simp add: generate_all_emitted [OF assms] cross_product_order_def header_bytes
        bodies_nested_loops)
next
  from bodies_sample_init_first3 obtain bs where
    "bodies sample_init (Suc 0) = [0, 0] # [0, 1, 0] # [0, 1, 1] # bs" by blast
  then show "take 3 (emitted (generate_all g 1)) =
           [[0x0D, 0x90, 0xE1, 0xFE, 1, 0, 0],
            [0x0D, 0x90, 0xE1, 0xFE, 1, 0, 1, 0],
            [0x0D, 0x90, 0xE1, 0xFE, 1, 0, 1, 1]]"
    using assms(1) by (simp add: generate_all_emitted header_bytes)
qed

theorem enumeration_order_witness:
  "emitted (generate_all Generator_init 2) = cross_product_order 2 \<and>
   take 3 (emitted (generate_all Generator_init 1)) =
           [[0x0D, 0x90, 0xE1, 0xFE, 1, 0, 0],
            [0x0D, 0x90, 0xE1, 0xFE, 1, 0, 1, 0],
            [0x0D, 0x90, 0xE1, 0xFE, 1, 0, 1, 1]]"
  using enumeration_order [of Generator_init 2] by (simp add: gen_ok_Generator_init)

section \<open>Emitted files and the buffer share no storage\<close>

lemma extends_refl: "extends b h h"
  by (simp add: extends_def)

lemma extends_trans: "extends b h1 h2 \<Longrightarrow> extends b h2 h3 \<Longrightarrow> extends b h1 h3"
  by (auto simp: extends_def)

lemma extends_update: "extends b h (h[b := x])"
  by (simp add: extends_def)

lemma extends_alloc: "extends b h (h @ [x])"
  by (simp add: extends_def nth_append)

lemma chain_extends: "chain b h0 t h1 \<Longrightarrow> extends b h0 h1"
  by (induction b h0 t h1 rule: chain.induct) (auto intro: extends_trans)

lemma chain_weaken: "extends b h h0 \<Longrightarrow> chain b h0 t h1 \<Longrightarrow> chain b h t h1"
  by (cases "(b, h0, t, h1)" rule: chain.cases) (auto intro: extends_trans simp: extends_def)

lemma chain_append:
  "chain b h0 t1 h1 \<Longrightarrow> chain b h1 t2 h2 \<Longrightarrow> chain b h0 (t1 @ t2) h2"
proof (induction b h0 t1 h1 rule: chain.induct)
  case (1 b h0 h1)
  then show ?case by (simp add: chain_weaken)
next
  case (2 b h0 a h t h1)
  then show ?case by simp
next
  case (3 b h0 lo bs h t h1)
  then show ?case by simp
qed

lemma chain_keeps:
  "chain b h t h1 \<Longrightarrow> a < length h \<Longrightarrow> a \<noteq> b \<Longrightarrow> list_all (\<lambda>s. snd s ! a = h ! a) t"
proof (induction b h t h1 rule: chain.induct)
  case (1 b h0 h1)
  then show ?case by simp
next
  case (2 b h0 a' h t h1)
  then have "a < length h" "h ! a = h0 ! a" by (auto simp: extends_def)
  with 2 show ?case by simp
next
  case (3 b h0 lo bs h t h1)
  then have "a < length h" "h ! a = h0 ! a" by (auto simp: extends_def)
  with 3 show ?case by simp
qed

lemma chain_isolated: "chain b h0 t h1 \<Longrightarrow> b < length h0 \<Longrightarrow> isolated b t"
proof (induction b h0 t h1 rule: chain.induct)
  case (1 b h0 h1)
  then show ?case by simp
next
  case (2 b h0 a h t h1)
  then have "b < length h" by (auto simp: extends_def)
  with 2 show ?case by (auto intro: chain_keeps)
next
  case (3 b h0 lo bs h t h1)
  then have "b < length h" by (auto simp: extends_def)
  with 3 show ?case by simp
qed

lemma chain_final_keeps:
  "chain b h0 t h1 \<Longrightarrow> b < length h0 \<Longrightarrow>
     map (\<lambda>a. h1 ! a) (handed_out t) = yielded (map (abs_step b) t)"
proof (induction b h0 t h1 rule: chain.induct)
  case (1 b h0 h1)
  then show ?case by simp
next
  case (2 b h0 a h t h1)
  then have bl: "b < length h" by (auto simp: extends_def)
  from 2 have "extends b h h1" by (auto dest: chain_extends)
  with 2 have "h1 ! a = h ! a" by (auto simp: extends_def)
  with 2 bl show ?case by simp
next
  case (3 b h0 lo bs h t h1)
  then have "b < length h" by (auto simp: extends_def)
  with 3 show ?case by simp
qed

lemma linked_then:
  assumes "linked s r" and "linked (final r) (k (final r))"
  shows "linked s (then_run r k)"
  using assms
  by (auto simp: linked_def steps_then_run final_then_run intro: chain_append)

lemma linked_seq:
  assumes "linked s r" and "\<And>s'. linked s' (k s')"
  shows "linked s (then_run r k)"
  by (rule linked_then [OF assms(1)]) (rule assms(2))

lemma linked_nil: "linked s ([], s, e)"
  by (simp add: linked_def extends_refl)

lemma linked_write: "linked s (store_write_slice lo hi bs s)"
  by (simp add: linked_def store_write_slice_def Let_def extends_update extends_refl)

lemma linked_yield: "linked s (store_yield_prefix offset s)"
  by (simp add: linked_def store_yield_prefix_def Let_def extends_alloc extends_refl)

lemma dfs_store_linked:
  "linked s (dfs_store current_sec_idx total_sections offset s)"
  and dfs_pairs_store_linked:
  "linked s (dfs_pairs_store ps current_sec_idx total_sections offset s)"
  and dfs_values_store_linked:
  "linked s (dfs_values_store vs len current_sec_idx total_sections offset s)"
proof (induction current_sec_idx total_sections offset s and ps current_sec_idx total_sections offset s
       and vs len current_sec_idx total_sections offset s rule: dfs_store_dfs_pairs_store_dfs_values_store.induct)
  case (1 current_sec_idx total_sections offset s)
  then show ?case
    by (simp add: dfs_store.simps linked_yield linked_nil del: dfs_pairs_store.simps)
next
  case (2 current_sec_idx total_sections offset s)
  show ?case by (simp add: linked_nil)
next
  case (3 tlp rest current_sec_idx total_sections offset s)
  show ?case
  proof (cases "bytes_of [fst tlp, snd tlp]")
    case (Inl e)
    then show ?thesis by (simp add: linked_nil)
  next
    case (Inr b)
    have "linked s (then_run (store_write_slice offset (offset + 2) b s)
            (\<lambda>s1. then_run
               (if snd tlp = 0 then dfs_store (current_sec_idx + 1) total_sections (offset + 2) s1
                else dfs_values_store (product_repeat (range_py 256) (snd tlp)) (snd tlp)
                       current_sec_idx total_sections offset s1)
               (\<lambda>s2. dfs_pairs_store rest current_sec_idx total_sections offset s2)))"
      by (intro linked_seq linked_write) (use "3.IH" Inr in auto)
    with Inr show ?thesis by simp
  qed
next
  case (4 len current_sec_idx total_sections offset s)
  show ?case by (simp add: linked_nil)
next
  case (5 v vs len current_sec_idx total_sections offset s)
  show ?case
  proof (cases "bytes_of v")
    case (Inl e)
    then show ?thesis by (simp add: linked_nil)
  next
    case (Inr b)
    have "linked s (then_run (store_write_slice (offset + 2) (offset + 2 + len) b s)
            (\<lambda>s1. then_run
               (dfs_store (current_sec_idx + 1) total_sections (offset + 2 + len) s1)
               (\<lambda>s2. dfs_values_store vs len current_sec_idx total_sections offset s2)))"
      by (intro linked_seq linked_write) (use "5.IH" Inr in auto)
    with Inr show ?thesis by simp
  qed
qed

lemma generate_all_store_linked: "linked s (generate_all_store s n)"
proof -
  have "linked s1 (case set_item (heap s1 ! self_buffer s1) 4 n of
                Inl e \<Rightarrow> ([], s1, Some e)
              | Inr b \<Rightarrow>
                  then_run ([(Stored 4 [word_of_int n], (heap s1)[self_buffer s1 := b])],
                            s1\<lparr>heap := (heap s1)[self_buffer s1 := b]\<rparr>, None)
                    (\<lambda>s2. dfs_store 0 n 5 s2))" for s1
  proof (cases "set_item (heap s1 ! self_buffer s1) 4 n")
    case (Inl e)
    then show ?thesis by (simp add: linked_nil)
  next
    case (Inr b)
    have "linked s1 ([(Stored 4 [word_of_int n], (heap s1)[self_buffer s1 := b])],
                            s1\<lparr>heap := (heap s1)[self_buffer s1 := b]\<rparr>, None)"
      by (simp add: linked_def extends_update extends_refl)
    then show ?thesis
      using Inr by (simp add: linked_seq dfs_store_linked)
  qed
  then show ?thesis
    unfolding generate_all_store_def
    by (intro linked_seq linked_write)
qed

lemma abs_run_simps:
  "steps (abs_run b r) = map (abs_step b) (steps r)"
  "final (abs_run b r) = abs_store (final r)"
  "outcome (abs_run b r) = outcome r"
  by (simp_all add: abs_run_def)

lemma run_eqI:
  "steps r = steps r' \<Longrightarrow> final r = final r' \<Longrightarrow> outcome r = outcome r' \<Longrightarrow> r = r'"
  by (cases r, cases r') simp

lemma refines_then:
  assumes "refines s r r'" and "refines (final r) (k (final r)) (k' (final r'))"
  shows "refines s (then_run r k) (then_run r' k')"
proof -
  from assms(1) have a: "abs_run (self_buffer s) r = r'" "self_buffer (final r) = self_buffer s"
    "self_buffer s < length (heap (final r))"
    by (simp_all add: refines_def)
  from assms(2) a(2) have b: "abs_run (self_buffer s) (k (final r)) = k' (final r')"
    "self_buffer (final (k (final r))) = self_buffer s"
    "self_buffer s < length (heap (final (k (final r))))"
    by (simp_all add: refines_def)
  have o: "outcome r' = outcome r" "final r' = abs_store (final r)"
    "steps r' = map (abs_step (self_buffer s)) (steps r)"
    using a(1) by (auto simp: abs_run_simps)
  have b1: "k' (abs_store (final r)) = abs_run (self_buffer s) (k (final r))"
    using b(1) o(2) by simp
  have "abs_run (self_buffer s) (then_run r k) = then_run r' k'"
    by (rule run_eqI)
       (simp_all add: abs_run_simps steps_then_run final_then_run outcome_then_run o b1)
  then show ?thesis
    using a b by (simp add: refines_def final_then_run)
qed

lemma refines_seq:
  assumes "refines s r r'"
    and "\<And>s'. self_buffer s' = self_buffer s \<Longrightarrow> self_buffer s < length (heap s') \<Longrightarrow>
           refines s' (k s') (k' (abs_store s'))"
  shows "refines s (then_run r k) (then_run r' k')"
proof (rule refines_then [OF assms(1)])
  from assms(1) have "final r' = abs_store (final r)" "self_buffer (final r) = self_buffer s"
    "self_buffer s < length (heap (final r))"
    by (auto simp: refines_def abs_run_simps)
  then show "refines (final r) (k (final r)) (k' (final r'))"
    using assms(2) [of "final r"] by simp
qed

lemma refines_nil: "self_buffer s < length (heap s) \<Longrightarrow> refines s ([], s, e) ([], abs_store s, e)"
  by (simp add: refines_def abs_run_def)

lemma refines_write:
  "self_buffer s < length (heap s) \<Longrightarrow>
     refines s (store_write_slice lo hi bs s) (write_slice lo hi bs (abs_store s))"
  by (simp add: refines_def abs_run_def store_write_slice_def write_slice_def Let_def abs_store_def)

lemma refines_yield:
  "self_buffer s < length (heap s) \<Longrightarrow>
     refines s (store_yield_prefix offset s)
       (yield_bytes (take offset (buffer (abs_store s))) (abs_store s))"
  by (simp add: refines_def abs_run_def store_yield_prefix_def yield_bytes_def Let_def abs_store_def
      nth_append)

lemma dfs_store_refines:
  "self_buffer s < length (heap s) \<Longrightarrow>
     refines s (dfs_store current_sec_idx total_sections offset s)
       (dfs current_sec_idx total_sections offset (abs_store s))"
  and dfs_pairs_store_refines:
  "self_buffer s < length (heap s) \<Longrightarrow>
     refines s (dfs_pairs_store ps current_sec_idx total_sections offset s)
       (dfs_pairs ps current_sec_idx total_sections offset (abs_store s))"
  and dfs_values_store_refines:
  "self_buffer s < length (heap s) \<Longrightarrow>
     refines s (dfs_values_store vs len current_sec_idx total_sections offset s)
       (dfs_values vs len current_sec_idx total_sections offset (abs_store s))"
proof (induction current_sec_idx total_sections offset s and ps current_sec_idx total_sections offset s
       and vs len current_sec_idx total_sections offset s rule: dfs_store_dfs_pairs_store_dfs_values_store.induct)
  case (1 current_sec_idx total_sections offset s)
  have tp: "tl_pairs (abs_store s) = self_tl_pairs s" by (simp add: abs_store_def)
  from 1 show ?case
    by (simp add: dfs_store.simps dfs.simps refines_yield refines_nil tp
        del: dfs_pairs_store.simps dfs_pairs.simps)
next
  case (2 current_sec_idx total_sections offset s)
  then show ?case by (simp add: refines_nil)
next
  case (3 tlp rest current_sec_idx total_sections offset s)
  show ?case
  proof (cases "bytes_of [fst tlp, snd tlp]")
    case (Inl e)
    then show ?thesis using "3.prems" by (simp add: refines_nil)
  next
    case (Inr b)
    have "refines s (then_run (store_write_slice offset (offset + 2) b s)
            (\<lambda>s1. then_run
               (if snd tlp = 0 then dfs_store (current_sec_idx + 1) total_sections (offset + 2) s1
                else dfs_values_store (product_repeat (range_py 256) (snd tlp)) (snd tlp)
                       current_sec_idx total_sections offset s1)
               (\<lambda>s2. dfs_pairs_store rest current_sec_idx total_sections offset s2)))
          (then_run (write_slice offset (offset + 2) b (abs_store s))
            (\<lambda>g1. then_run
               (if snd tlp = 0 then dfs (current_sec_idx + 1) total_sections (offset + 2) g1
                else dfs_values (product_repeat (range_py 256) (snd tlp)) (snd tlp)
                       current_sec_idx total_sections offset g1)
               (\<lambda>g2. dfs_pairs rest current_sec_idx total_sections offset g2)))"
    proof (rule refines_seq [OF refines_write [OF "3.prems"]], rule refines_seq)
      fix s' :: store assume s': "self_buffer s' = self_buffer s" "self_buffer s < length (heap s')"
      show "refines s'
          (if snd tlp = 0 then dfs_store (current_sec_idx + 1) total_sections (offset + 2) s'
           else dfs_values_store (product_repeat (range_py 256) (snd tlp)) (snd tlp)
                  current_sec_idx total_sections offset s')
          (if snd tlp = 0 then dfs (current_sec_idx + 1) total_sections (offset + 2) (abs_store s')
           else dfs_values (product_repeat (range_py 256) (snd tlp)) (snd tlp)
                  current_sec_idx total_sections offset (abs_store s'))"
        using "3.IH"(1,2) [OF Inr, of s'] s' by simp
    next
      fix s' s'' :: store assume "self_buffer s' = self_buffer s" "self_buffer s < length (heap s')"
        "self_buffer s'' = self_buffer s'" "self_buffer s' < length (heap s'')"
      then show "refines s'' (dfs_pairs_store rest current_sec_idx total_sections offset s'')
          (dfs_pairs rest current_sec_idx total_sections offset (abs_store s''))"
        using "3.IH"(3) [OF Inr, of s''] by simp
    qed
    with Inr show ?thesis by simp
  qed
next
  case (4 len current_sec_idx total_sections offset s)
  then show ?case by (simp add: refines_nil)
next
  case (5 v vs len current_sec_idx total_sections offset s)
  show ?case
  proof (cases "bytes_of v")
    case (Inl e)
    then show ?thesis using "5.prems" by (simp add: refines_nil)
  next
    case (Inr b)
    have "refines s (then_run (store_write_slice (offset + 2) (offset + 2 + len) b s)
            (\<lambda>s1. then_run
               (dfs_store (current_sec_idx + 1) total_sections (offset + 2 + len) s1)
               (\<lambda>s2. dfs_values_store vs len current_sec_idx total_sections offset s2)))
          (then_run (write_slice (offset + 2) (offset + 2 + len) b (abs_store s))
            (\<lambda>g1. then_run
               (dfs (current_sec_idx + 1) total_sections (offset + 2 + len) g1)
               (\<lambda>g2. dfs_values vs len current_sec_idx total_sections offset g2)))"
    proof (rule refines_seq [OF refines_write [OF "5.prems"]], rule refines_seq)
      fix s' :: store assume s': "self_buffer s' = self_buffer s" "self_buffer s < length (heap s')"
      show "refines s' (dfs_store (current_sec_idx + 1) total_sections (offset + 2 + len) s')
          (dfs (current_sec_idx + 1) total_sections (offset + 2 + len) (abs_store s'))"
        using "5.IH"(1) [OF Inr, of s'] s' by simp
    next
      fix s' s'' :: store assume "self_buffer s' = self_buffer s" "self_buffer s < length (heap s')"
        "self_buffer s'' = self_buffer s'" "self_buffer s' < length (heap s'')"
      then show "refines s'' (dfs_values_store vs len current_sec_idx total_sections offset s'')
          (dfs_values vs len current_sec_idx total_sections offset (abs_store s''))"
        using "5.IH"(2) [OF Inr, of s''] by simp
    qed
    with Inr show ?thesis by simp
  qed
qed

lemma generate_all_store_refines:
  assumes "self_buffer s < length (heap s)"
  shows "refines s (generate_all_store s n) (generate_all (abs_store s) n)"
proof -
  have m: "magic (abs_store s) = self_magic s" by (simp add: abs_store_def)
  have "refines s
     (then_run (store_write_slice 0 4 (self_magic s) s)
       (\<lambda>s1. case set_item (heap s1 ! self_buffer s1) 4 n of
                Inl e \<Rightarrow> ([], s1, Some e)
              | Inr b \<Rightarrow>
                  then_run ([(Stored 4 [word_of_int n], (heap s1)[self_buffer s1 := b])],
                            s1\<lparr>heap := (heap s1)[self_buffer s1 := b]\<rparr>, None)
                    (\<lambda>s2. dfs_store 0 n 5 s2)))
     (then_run (write_slice 0 4 (self_magic s) (abs_store s))
       (\<lambda>g1. case set_item (buffer g1) 4 n of
                Inl e \<Rightarrow> ([], g1, Some e)
              | Inr b \<Rightarrow>
                  then_run ([(Wrote 4 [word_of_int n], b)], g1\<lparr>buffer := b\<rparr>, None)
                    (\<lambda>g2. dfs 0 n 5 g2)))"
  proof (rule refines_seq [OF refines_write [OF assms]])
    fix s' :: store assume s': "self_buffer s' = self_buffer s" "self_buffer s < length (heap s')"
    have bf: "buffer (abs_store s') = heap s' ! self_buffer s'" by (simp add: abs_store_def)
    show "refines s'
        (case set_item (heap s' ! self_buffer s') 4 n of
           Inl e \<Rightarrow> ([], s', Some e)
         | Inr b \<Rightarrow>
             then_run ([(Stored 4 [word_of_int n], (heap s')[self_buffer s' := b])],
                       s'\<lparr>heap := (heap s')[self_buffer s' := b]\<rparr>, None)
               (\<lambda>s2. dfs_store 0 n 5 s2))
        (case set_item (buffer (abs_store s')) 4 n of
           Inl e \<Rightarrow> ([], abs_store s', Some e)
         | Inr b \<Rightarrow>
             then_run ([(Wrote 4 [word_of_int n], b)], (abs_store s')\<lparr>buffer := b\<rparr>, None)
               (\<lambda>g2. dfs 0 n 5 g2))"
    proof (cases "set_item (heap s' ! self_buffer s') 4 n")
      case (Inl e)
      then show ?thesis using s' by (simp add: bf refines_nil)
    next
      case (Inr b)
      have one: "refines s'
          ([(Stored 4 [word_of_int n], (heap s')[self_buffer s' := b])],
            s'\<lparr>heap := (heap s')[self_buffer s' := b]\<rparr>, None)
          ([(Wrote 4 [word_of_int n], b)], (abs_store s')\<lparr>buffer := b\<rparr>, None)"
        using s' by (simp add: refines_def abs_run_def abs_store_def)
      have "refines s'
          (then_run ([(Stored 4 [word_of_int n], (heap s')[self_buffer s' := b])],
                       s'\<lparr>heap := (heap s')[self_buffer s' := b]\<rparr>, None)
               (\<lambda>s2. dfs_store 0 n 5 s2))
          (then_run ([(Wrote 4 [word_of_int n], b)], (abs_store s')\<lparr>buffer := b\<rparr>, None)
               (\<lambda>g2. dfs 0 n 5 g2))"
        by (rule refines_seq [OF one]) (simp add: dfs_store_refines)
      with Inr show ?thesis by (simp add: bf)
    qed
  qed
  then show ?thesis
    by (simp add: generate_all_store_def generate_all_def m)
qed

lemma abs_store_init: "abs_store Store_init = Generator_init"
  by (simp add: abs_store_def Store_init_def Generator_init_def)

text \<open>Claim C3. Every file \<^verbatim>\<open>generate_all\<close> emits is an object of its own: its address
  is not the address of the buffer, and after every later step of the traversal, whatever
  that step writes into the buffer, the object still holds the bytes it held when it was
  emitted. Read at the end of the run, the emitted objects are the emitted files.\<close>
theorem snapshot_isolation:
  assumes "self_buffer s < length (heap s)"
  shows "isolated (self_buffer s) (steps (generate_all_store s n)) \<and>
         map ((!) (heap (final (generate_all_store s n)))) (handed_out (steps (generate_all_store s n))) =
           emitted (generate_all (abs_store s) n)"
proof -
  let ?r = "generate_all_store s n"
  from generate_all_store_linked [of s n]
  have c: "chain (self_buffer s) (heap s) (steps ?r) (heap (final ?r))"
    by (simp add: linked_def)
  from generate_all_store_refines [OF assms, of n]
  have "map (abs_step (self_buffer s)) (steps ?r) = steps (generate_all (abs_store s) n)"
    by (auto simp: refines_def abs_run_simps [symmetric])
  with chain_final_keeps [OF c assms] chain_isolated [OF c assms] show ?thesis
    by (simp add: emitted_def)
qed

theorem snapshot_isolation_witness:
  "isolated 0 (steps (generate_all_store Store_init 1)) \<and>
   map ((!) (heap (final (generate_all_store Store_init 1))))
         (handed_out (steps (generate_all_store Store_init 1))) =
     emitted (generate_all Generator_init 1)"
  using snapshot_isolation [of Store_init 1]
  by (simp add: abs_store_init) (simp add: Store_init_def)

end
